theory Spec2Isabelle
  imports Complex_Main "HOL-Library.Word"
begin

section \<open>Values of the host language\<close>

text \<open>
  A string of the host language is a list of 16-bit code units. A string all of whose code
  units are below 256 is given as a list of 8-bit characters, a character standing for
  the code unit of the same value: \<open>Narrow\<close>. Any other string is given as the list of its
  code units: \<open>Wide\<close>. The texts the program reads (the log, its lines, a base64 payload)
  and the literals it compares with are narrow, and are plain lists of characters.
\<close>

datatype jstring = Narrow string | Wide "nat list"

definition code_units :: "jstring \<Rightarrow> nat list" where
  "code_units t = (case t of Narrow s \<Rightarrow> map of_char s | Wide us \<Rightarrow> us)"

text \<open>The string of a single code unit, and \<^verbatim>\<open>a + b\<close> on strings.\<close>

definition code_unit :: "nat \<Rightarrow> jstring" where
  "code_unit u = (if u < 256 then Narrow [char_of u] else Wide [u])"

definition append_text :: "jstring \<Rightarrow> jstring \<Rightarrow> jstring" where
  "append_text a b =
     (case (a, b) of
        (Narrow s, Narrow t) \<Rightarrow> Narrow (s @ t)
      | _ \<Rightarrow> Wide (code_units a @ code_units b))"

text \<open>
  An event payload is whatever \<^verbatim>\<open>JSON.parse\<close> returned: an open structured value. A number
  is a double: \<open>JNum q\<close> is the finite double of the value \<open>q\<close>, with \<open>JNum 0\<close> the positive
  zero, \<open>JNegZero\<close> is the negative zero, and \<open>JInf neg\<close> is the infinity of the given sign.
  \<open>JStr\<close> is a narrow string and \<open>JWide\<close> a wide one, by its code units. \<open>JObj\<close> is an object
  all of whose keys are narrow, and \<open>JWideObj\<close> an object with a wide key.
\<close>

datatype json =
    JNull
  | JBool bool
  | JNum rat
  | JNegZero
  | JInf bool
  | JStr string
  | JWide "nat list"
  | JArr "json list"
  | JObj "(string \<times> json) list"
  | JWideObj "(jstring \<times> json) list"

datatype error = TypeError | RangeError | InvalidCharacterError

text \<open>
  \<^verbatim>\<open>v.k\<close> for a value \<open>v\<close> that is neither \<^verbatim>\<open>null\<close> nor \<^verbatim>\<open>undefined\<close>; \<open>None\<close> is
  \<^verbatim>\<open>undefined\<close>. A later binding of a repeated key overrides an earlier one. The keys this
  program reads (type, response, usage, id, input_tokens, output_tokens, total_tokens,
  delta, transcript, session, model, voice) are no properties of numbers, booleans,
  strings or arrays. Reading a property of \<^verbatim>\<open>null\<close> raises a TypeError: every place of
  the source that does so unguarded tests for \<open>JNull\<close> first.
\<close>

definition get :: "json \<Rightarrow> string \<Rightarrow> json option" where
  "get v k =
     (case v of
        JObj kvs \<Rightarrow> map_of (rev kvs) k
      | JWideObj kvs \<Rightarrow> map_of (rev kvs) (Narrow k)
      | _ \<Rightarrow> None)"

text \<open>\<^verbatim>\<open>v?.k\<close>: \<^verbatim>\<open>undefined\<close> when \<open>v\<close> is \<^verbatim>\<open>undefined\<close> or \<^verbatim>\<open>null\<close>.\<close>

definition opt_get :: "json option \<Rightarrow> string \<Rightarrow> json option" where
  "opt_get v k = (case v of None \<Rightarrow> None | Some JNull \<Rightarrow> None | Some w \<Rightarrow> get w k)"

text \<open>Truthiness, as \<^verbatim>\<open>if (v)\<close> and \<^verbatim>\<open>v || d\<close> test it.\<close>

fun truthy :: "json option \<Rightarrow> bool" where
  "truthy None = False"
| "truthy (Some JNull) = False"
| "truthy (Some (JBool b)) = b"
| "truthy (Some (JNum n)) = (n \<noteq> 0)"
| "truthy (Some JNegZero) = False"
| "truthy (Some (JInf _)) = True"
| "truthy (Some (JStr s)) = (s \<noteq> [])"
| "truthy (Some (JWide us)) = (us \<noteq> [])"
| "truthy (Some (JArr _)) = True"
| "truthy (Some (JObj _)) = True"
| "truthy (Some (JWideObj _)) = True"

section \<open>types.ts\<close>

record ParsedLogLine =
  timestamp :: "string option"
  sessionId :: "string option"
  source :: "string option"
  event :: json
  rawLine :: string
  lineNumber :: nat

definition DELTA_EVENT_TYPES :: "string list" where
  "DELTA_EVENT_TYPES =
    [''response.audio.delta'',
     ''response.audio_transcript.delta'',
     ''response.text.delta'',
     ''response.function_call_arguments.delta'',
     ''conversation.item.input_audio_transcription.delta'']"

definition SPEECH_START :: string where
  "SPEECH_START = ''input_audio_buffer.speech_started''"

definition SPEECH_STOP :: string where
  "SPEECH_STOP = ''input_audio_buffer.speech_stopped''"

definition RESPONSE_START :: string where
  "RESPONSE_START = ''response.created''"

definition FUNCTION_CALL :: string where
  "FUNCTION_CALL = ''response.function_call_arguments.done''"

section \<open>group-events.ts\<close>

datatype PhaseType = speech | response | function_call

record PhaseMarker =
  phase_type :: PhaseType
  phase_timestamp :: "string option"
  phase_lineNumber :: nat

record DeltaGroup =
  eventType :: string
  events :: "ParsedLogLine list"
  firstLineNumber :: nat
  lastLineNumber :: nat

datatype CycleItem = Line ParsedLogLine | Group DeltaGroup

record TokenUsage =
  usage_input :: json
  usage_output :: json
  usage_total :: json

record ResponseCycle =
  responseId :: "json option"
  startEvent :: ParsedLogLine
  endEvent :: "ParsedLogLine option"
  items :: "CycleItem list"
  tokenUsage :: "TokenUsage option"

datatype EventGroup =
    Phase PhaseMarker
  | Cycle ResponseCycle
  | Standalone ParsedLogLine

text \<open>
  \<^verbatim>\<open>event.event.type as string\<close>. The cast checks nothing, so the value read may be absent
  or of another JSON type: \<open>None\<close> stands for every value that is not a narrow string.
  Such a value is \<^verbatim>\<open>!==\<close> to every literal of the program, all of which are narrow, and
  \<^verbatim>\<open>includes\<close> does not find it among the delta types. The read itself raises when the
  payload is \<^verbatim>\<open>null\<close>.
\<close>

definition type_of :: "json \<Rightarrow> string option" where
  "type_of ev = (case get ev ''type'' of Some (JStr s) \<Rightarrow> Some s | _ \<Rightarrow> None)"

definition event_type :: "ParsedLogLine \<Rightarrow> error + string option" where
  "event_type e = (if event e = JNull then Inl TypeError else Inr (type_of (event e)))"

definition isDeltaEvent :: "string option \<Rightarrow> bool" where
  "isDeltaEvent t = (case t of Some s \<Rightarrow> s \<in> set DELTA_EVENT_TYPES | None \<Rightarrow> False)"

text \<open>
  The body of the loop of \<^verbatim>\<open>aggregateDeltaEvents\<close>, on the pair of \<^verbatim>\<open>result\<close> and
  \<^verbatim>\<open>currentGroup\<close>. A group is pushed to \<^verbatim>\<open>result\<close> only when it is closed and is not
  touched afterwards, so the in-place \<^verbatim>\<open>push\<close> on its events is a functional update.
\<close>

definition newGroup :: "string \<Rightarrow> ParsedLogLine \<Rightarrow> DeltaGroup" where
  "newGroup ty e =
     \<lparr>eventType = ty, events = [e], firstLineNumber = lineNumber e, lastLineNumber = lineNumber e\<rparr>"

definition aggregate_step ::
  "CycleItem list \<times> DeltaGroup option \<Rightarrow> ParsedLogLine \<Rightarrow> string option
     \<Rightarrow> CycleItem list \<times> DeltaGroup option" where
  "aggregate_step st e ty =
     (case st of (result, currentGroup) \<Rightarrow>
        if isDeltaEvent ty then
          (case (currentGroup, ty) of
             (Some g, Some t) \<Rightarrow>
               if eventType g = t
               then (result, Some (g\<lparr>events := events g @ [e], lastLineNumber := lineNumber e\<rparr>))
               else (result @ [Group g], Some (newGroup t e))
           | (None, Some t) \<Rightarrow> (result, Some (newGroup t e))
           | (_, None) \<Rightarrow> (result, currentGroup))
        else
          (case currentGroup of
             Some g \<Rightarrow> (result @ [Group g, Line e], None)
           | None \<Rightarrow> (result @ [Line e], None)))"

fun aggregate_loop ::
  "CycleItem list \<times> DeltaGroup option \<Rightarrow> ParsedLogLine list
     \<Rightarrow> error + CycleItem list \<times> DeltaGroup option" where
  "aggregate_loop st [] = Inr st"
| "aggregate_loop st (e # es) =
     (case event_type e of
        Inl err \<Rightarrow> Inl err
      | Inr ty \<Rightarrow> aggregate_loop (aggregate_step st e ty) es)"

definition aggregateDeltaEvents :: "ParsedLogLine list \<Rightarrow> error + CycleItem list" where
  "aggregateDeltaEvents es =
     (case aggregate_loop ([], None) es of
        Inl err \<Rightarrow> Inl err
      | Inr (result, currentGroup) \<Rightarrow>
          Inr (case currentGroup of Some g \<Rightarrow> result @ [Group g] | None \<Rightarrow> result))"

text \<open>The three variables of \<^verbatim>\<open>groupEvents\<close> that its loop and \<^verbatim>\<open>flushCycle\<close> update.\<close>

record GroupState =
  result :: "EventGroup list"
  currentCycle :: "ResponseCycle option"
  cycleEvents :: "ParsedLogLine list"

definition flushCycle :: "GroupState \<Rightarrow> error + GroupState" where
  "flushCycle st =
     (case currentCycle st of
        None \<Rightarrow> Inr st
      | Some c \<Rightarrow>
          (case aggregateDeltaEvents (cycleEvents st) of
             Inl err \<Rightarrow> Inl err
           | Inr its \<Rightarrow>
               Inr \<lparr>result = result st @ [Cycle (c\<lparr>items := its\<rparr>)],
                    currentCycle = None, cycleEvents = []\<rparr>))"

definition phaseMarker :: "PhaseType \<Rightarrow> ParsedLogLine \<Rightarrow> EventGroup" where
  "phaseMarker p e =
     Phase \<lparr>phase_type = p, phase_timestamp = timestamp e, phase_lineNumber = lineNumber e\<rparr>"

text \<open>\<^verbatim>\<open>v || 0\<close>\<close>

definition or_zero :: "json option \<Rightarrow> json" where
  "or_zero v = (case v of Some w \<Rightarrow> if truthy v then w else JNum 0 | None \<Rightarrow> JNum 0)"

text \<open>
  The token usage a \<^verbatim>\<open>response.done\<close> payload gives: \<^verbatim>\<open>event.event.response?.usage\<close>,
  when truthy, with each count read through \<^verbatim>\<open>|| 0\<close>; \<open>None\<close> leaves the field of the cycle
  as it is.
\<close>

definition usage_of :: "ParsedLogLine \<Rightarrow> TokenUsage option" where
  "usage_of e =
     (let response = get (event e) ''response'';
          usage = opt_get response ''usage''
      in if truthy usage then
           (case usage of
              Some u \<Rightarrow>
                Some \<lparr>usage_input = or_zero (get u ''input_tokens''),
                      usage_output = or_zero (get u ''output_tokens''),
                      usage_total = or_zero (get u ''total_tokens'')\<rparr>
            | None \<Rightarrow> None)
         else None)"

text \<open>One iteration of the loop of \<^verbatim>\<open>groupEvents\<close>, the type of the event already read.\<close>

definition group_step :: "GroupState \<Rightarrow> ParsedLogLine \<Rightarrow> string option \<Rightarrow> error + GroupState" where
  "group_step st e ty =
     (if ty = Some SPEECH_START then
        (case flushCycle st of
           Inl err \<Rightarrow> Inl err
         | Inr st1 \<Rightarrow> Inr (st1\<lparr>result := result st1 @ [phaseMarker speech e, Standalone e]\<rparr>))
      else if ty = Some RESPONSE_START then
        (case flushCycle st of
           Inl err \<Rightarrow> Inl err
         | Inr st1 \<Rightarrow>
             Inr \<lparr>result = result st1 @ [phaseMarker response e],
                  currentCycle =
                    Some \<lparr>responseId = opt_get (get (event e) ''response'') ''id'',
                          startEvent = e, endEvent = None, items = [], tokenUsage = None\<rparr>,
                  cycleEvents = cycleEvents st1 @ [e]\<rparr>)
      else if ty = Some ''response.done'' \<or> ty = Some ''response.cancelled'' then
        (case currentCycle st of
           Some c \<Rightarrow>
             flushCycle
               \<lparr>result = result st,
                currentCycle =
                  Some (c\<lparr>endEvent := Some e,
                          tokenUsage :=
                            (if ty = Some ''response.done''
                             then (case usage_of e of Some u \<Rightarrow> Some u | None \<Rightarrow> tokenUsage c)
                             else tokenUsage c)\<rparr>),
                cycleEvents = cycleEvents st @ [e]\<rparr>
         | None \<Rightarrow> Inr (st\<lparr>result := result st @ [Standalone e]\<rparr>))
      else if ty = Some FUNCTION_CALL then
        (case currentCycle st of
           Some c \<Rightarrow> Inr (st\<lparr>cycleEvents := cycleEvents st @ [e]\<rparr>)
         | None \<Rightarrow> Inr (st\<lparr>result := result st @ [phaseMarker function_call e, Standalone e]\<rparr>))
      else
        (case currentCycle st of
           Some c \<Rightarrow> Inr (st\<lparr>cycleEvents := cycleEvents st @ [e]\<rparr>)
         | None \<Rightarrow> Inr (st\<lparr>result := result st @ [Standalone e]\<rparr>)))"

fun group_loop :: "GroupState \<Rightarrow> ParsedLogLine list \<Rightarrow> error + GroupState" where
  "group_loop st [] = Inr st"
| "group_loop st (e # es) =
     (case event_type e of
        Inl err \<Rightarrow> Inl err
      | Inr ty \<Rightarrow>
          (case group_step st e ty of
             Inl err \<Rightarrow> Inl err
           | Inr st1 \<Rightarrow> group_loop st1 es))"

definition init_state :: GroupState where
  "init_state = \<lparr>result = [], currentCycle = None, cycleEvents = []\<rparr>"

definition groupEvents :: "ParsedLogLine list \<Rightarrow> error + EventGroup list" where
  "groupEvents es =
     (case group_loop init_state es of
        Inl err \<Rightarrow> Inl err
      | Inr st \<Rightarrow>
          (case flushCycle st of
             Inl err \<Rightarrow> Inl err
           | Inr st1 \<Rightarrow> Inr (result st1)))"




text \<open>\<^verbatim>\<open>xs.map(f)\<close> for a callback that may raise: the first exception ends the map.\<close>

fun map_raising :: "('a \<Rightarrow> error + 'b) \<Rightarrow> 'a list \<Rightarrow> error + 'b list" where
  "map_raising f [] = Inr []"
| "map_raising f (x # xs) =
     (case f x of
        Inl err \<Rightarrow> Inl err
      | Inr y \<Rightarrow> (case map_raising f xs of Inl err \<Rightarrow> Inl err | Inr ys \<Rightarrow> Inr (y # ys)))"




text \<open>The events a group of the output stands for, in order.\<close>

fun item_events :: "CycleItem \<Rightarrow> ParsedLogLine list" where
  "item_events (Line e) = [e]"
| "item_events (Group g) = events g"

definition items_events :: "CycleItem list \<Rightarrow> ParsedLogLine list" where
  "items_events its = concat (map item_events its)"

fun group_events :: "EventGroup \<Rightarrow> ParsedLogLine list" where
  "group_events (Phase p) = []"
| "group_events (Standalone e) = [e]"
| "group_events (Cycle c) = items_events (items c)"

definition flatten :: "EventGroup list \<Rightarrow> ParsedLogLine list" where
  "flatten gs = concat (map group_events gs)"

section \<open>audio-player.ts\<close>

text \<open>
  \<^verbatim>\<open>atob\<close>, the host's forgiving base64 decoder: ASCII whitespace is removed; when the
  length is then a multiple of four, one or two trailing \<^verbatim>\<open>=\<close> are removed; a length of
  remainder one, or a character outside the alphabet, raises InvalidCharacterError; every
  character contributes six bits, every full eight bits give one byte and left-over bits
  are dropped. The result is a binary string, one character for each byte, given here as
  the list of its character codes.
\<close>

definition b64_alphabet :: string where
  "b64_alphabet = ''ABCDEFGHIJKLMNOPQRSTUVWXYZabcdefghijklmnopqrstuvwxyz0123456789+/''"

fun index_of :: "'a \<Rightarrow> 'a list \<Rightarrow> nat option" where
  "index_of x [] = None"
| "index_of x (y # ys) =
     (if x = y then Some 0 else (case index_of x ys of Some i \<Rightarrow> Some (Suc i) | None \<Rightarrow> None))"

definition ascii_whitespace :: "char \<Rightarrow> bool" where
  "ascii_whitespace c \<longleftrightarrow> c \<in> {CHR 0x09, CHR 0x0A, CHR 0x0C, CHR 0x0D, CHR '' ''}"

definition strip_padding :: "string \<Rightarrow> string" where
  "strip_padding d =
     (if length d mod 4 = 0 then
        (case rev d of
           a # b # r \<Rightarrow> if a = CHR ''='' then (if b = CHR ''='' then rev r else rev (b # r)) else d
         | _ \<Rightarrow> d)
      else d)"

fun decode_sextets :: "nat list \<Rightarrow> nat list" where
  "decode_sextets (a # b # c # d # r) =
     (let n = ((a * 64 + b) * 64 + c) * 64 + d
      in n div 65536 # n div 256 mod 256 # n mod 256 # decode_sextets r)"
| "decode_sextets [a, b, c] =
     (let n = ((a * 64 + b) * 64 + c) div 4 in [n div 256, n mod 256])"
| "decode_sextets [a, b] = [(a * 64 + b) div 16]"
| "decode_sextets r = []"

definition atob :: "string \<Rightarrow> error + nat list" where
  "atob data =
     (let d = strip_padding (filter (\<lambda>c. \<not> ascii_whitespace c) data) in
      if length d mod 4 = 1 then Inl InvalidCharacterError
      else
        (case those (map (\<lambda>c. index_of c b64_alphabet) d) of
           None \<Rightarrow> Inl InvalidCharacterError
         | Some vs \<Rightarrow> Inr (decode_sextets vs)))"

text \<open>
  \<^verbatim>\<open>new Int16Array(bytes.buffer)\<close>: a view of the bytes as 16-bit signed integers, the low
  byte first (the byte order of the platforms the program runs on); a byte length that is
  not a multiple of two raises RangeError.
\<close>

definition int16_le :: "8 word \<Rightarrow> 8 word \<Rightarrow> 16 word" where
  "int16_le lo hi = or (ucast lo) (push_bit 8 (ucast hi))"

fun int16_view :: "8 word list \<Rightarrow> 16 word list" where
  "int16_view (lo # hi # r) = int16_le lo hi # int16_view r"
| "int16_view r = []"

definition Int16Array :: "8 word list \<Rightarrow> error + 16 word list" where
  "Int16Array bytes = (if odd (length bytes) then Inl RangeError else Inr (int16_view bytes))"

text \<open>
  A sample divided by 32768 is a multiple of \<open>2 powr -15\<close> of absolute value at most one:
  the 32-bit float the array stores is this number exactly, so a sample buffer is a list
  of reals.
\<close>

definition decodeAudioDelta :: "string \<Rightarrow> error + real list" where
  "decodeAudioDelta base64 =
     (case atob base64 of
        Inl err \<Rightarrow> Inl err
      | Inr binaryString \<Rightarrow>
          (let bytes = map (\<lambda>c. of_nat c :: 8 word) binaryString in
           case Int16Array bytes of
             Inl err \<Rightarrow> Inl err
           | Inr int16Array \<Rightarrow> Inr (map (\<lambda>s. real_of_int (sint s) / 32768) int16Array)))"

definition combineAudioChunks :: "real list list \<Rightarrow> real list" where
  "combineAudioChunks chunks =
     (if length chunks = 0 then []
      else if length chunks = 1 then hd chunks
      else concat chunks)"

text \<open>
  The loop of \<^verbatim>\<open>extractAudioFromDeltaGroup\<close> on its list of chunks and the warnings it
  logs. The read of \<^verbatim>\<open>evt.event.delta\<close> stands outside the \<^verbatim>\<open>try\<close>. On a wide string
  \<^verbatim>\<open>atob\<close> raises, as it does on every character outside the alphabet.
\<close>

datatype warning = AudioWarning | DecodeWarning nat string

fun extract_loop ::
  "real list list \<times> warning list \<Rightarrow> ParsedLogLine list \<Rightarrow> error + real list list \<times> warning list" where
  "extract_loop st [] = Inr st"
| "extract_loop (chunks, console) (evt # evts) =
     (if event evt = JNull then Inl TypeError
      else
        (case get (event evt) ''delta'' of
           Some (JStr delta) \<Rightarrow>
             if length delta > 0 then
               (case decodeAudioDelta delta of
                  Inr decoded \<Rightarrow>
                    if length decoded > 0
                    then extract_loop (chunks @ [decoded], console) evts
                    else extract_loop (chunks, console) evts
                | Inl err \<Rightarrow> extract_loop (chunks, console @ [AudioWarning]) evts)
             else extract_loop (chunks, console) evts
         | Some (JWide delta) \<Rightarrow>
             if length delta > 0
             then extract_loop (chunks, console @ [AudioWarning]) evts
             else extract_loop (chunks, console) evts
         | _ \<Rightarrow> extract_loop (chunks, console) evts))"

definition extractAudioFromDeltaGroup ::
  "ParsedLogLine list \<Rightarrow> error + real list option \<times> warning list" where
  "extractAudioFromDeltaGroup evts =
     (case extract_loop ([], []) evts of
        Inl err \<Rightarrow> Inl err
      | Inr (chunks, console) \<Rightarrow>
          Inr (if length chunks = 0 then None else Some (combineAudioChunks chunks), console))"

section \<open>The host's JSON.parse\<close>

text \<open>
  \<^verbatim>\<open>JSON.parse\<close> follows the JSON grammar: a value is \<^verbatim>\<open>null\<close>, \<^verbatim>\<open>true\<close>, \<^verbatim>\<open>false\<close>, a
  number, a string, an array or an object; space, tab, line feed and carriage return may
  stand between tokens; any JSON value is accepted at the top, not only an object. A text
  outside the grammar raises SyntaxError: the result \<open>None\<close>. The text is first cut into
  tokens, then the tokens are parsed.
\<close>

datatype token =
    TLBrace | TRBrace | TLBracket | TRBracket | TColon | TComma
  | TString jstring | TNumber json | TTrue | TFalse | TNull

definition digit :: "char \<Rightarrow> bool" where
  "digit c \<longleftrightarrow> c \<in> set ''0123456789''"

definition digit_value :: "char \<Rightarrow> nat" where
  "digit_value c = (case index_of c ''0123456789'' of Some i \<Rightarrow> i | None \<Rightarrow> 0)"

definition digits_value :: "string \<Rightarrow> nat" where
  "digits_value ds = foldl (\<lambda>n c. 10 * n + digit_value c) 0 ds"

definition hex_value :: "char \<Rightarrow> nat option" where
  "hex_value c =
     (case index_of c ''0123456789abcdef'' of
        Some i \<Rightarrow> Some i
      | None \<Rightarrow> map_option (\<lambda>i. i + 10) (index_of c ''ABCDEF''))"

text \<open>The character an escape of one letter stands for.\<close>

definition escape_char :: "char \<Rightarrow> char option" where
  "escape_char c =
     (if c = CHR 0x22 then Some (CHR 0x22)
      else if c = CHR 0x5C then Some (CHR 0x5C)
      else if c = CHR ''/'' then Some (CHR ''/'')
      else if c = CHR ''b'' then Some (CHR 0x08)
      else if c = CHR ''f'' then Some (CHR 0x0C)
      else if c = CHR ''n'' then Some (CHR 0x0A)
      else if c = CHR ''r'' then Some (CHR 0x0D)
      else if c = CHR ''t'' then Some (CHR 0x09)
      else None)"

text \<open>
  The rest of a string literal after its opening quote: the string up to the closing
  quote, and what follows it. A control character may not stand in a string unescaped. A
  \<^verbatim>\<open>\u\<close> escape names one code unit, of any value below 65536, by four hexadecimal digits.
\<close>

fun lex_string :: "jstring \<Rightarrow> string \<Rightarrow> (jstring \<times> string) option" where
  "lex_string acc [] = None"
| "lex_string acc (c # cs) =
     (if c = CHR 0x22 then Some (acc, cs)
      else if c = CHR 0x5C then
        (case cs of
           [] \<Rightarrow> None
         | e # r \<Rightarrow>
             if e = CHR ''u'' then
               (case those (map hex_value (take 4 r)) of
                  Some [a, b, c, d] \<Rightarrow>
                    lex_string (append_text acc (code_unit (((a * 16 + b) * 16 + c) * 16 + d)))
                      (drop 4 r)
                | _ \<Rightarrow> None)
             else
               (case escape_char e of
                  Some x \<Rightarrow> lex_string (append_text acc (Narrow [x])) r
                | None \<Rightarrow> None))
      else if (of_char c :: nat) < 0x20 then None
      else lex_string (append_text acc (Narrow [c])) cs)"

text \<open>
  The double a decimal literal denotes: the double nearest to its value \<open>p / q\<close>, the one of
  even significand when two are equally near. A double is a multiple \<open>n * 2 ^ k\<close> of a power
  of two with \<open>n < 2 ^ 53\<close> and \<open>k\<close> at least \<open>-1074\<close>; a value that rounds to \<open>2 ^ 1024\<close> or
  more becomes an infinity, and one that rounds to nothing a zero of the literal's sign.
\<close>

fun bitlen :: "nat \<Rightarrow> nat" where
  "bitlen n = (if n = 0 then 0 else Suc (bitlen (n div 2)))"

declare bitlen.simps [simp del]

definition scale2 :: "int \<Rightarrow> rat" where
  "scale2 k = (if 0 \<le> k then 2 ^ nat k else 1 / 2 ^ nat (- k))"

text \<open>The largest \<open>e\<close> with \<open>2 ^ e \<le> p / q\<close>, for positive \<open>p\<close> and \<open>q\<close>.\<close>

definition binary_exponent :: "nat \<Rightarrow> nat \<Rightarrow> int" where
  "binary_exponent p q =
     (let d = int (bitlen p) - int (bitlen q)
      in if scale2 d * of_nat q \<le> of_nat p then d else d - 1)"

text \<open>The integer nearest to \<open>p / q\<close>, the even one of two equally near.\<close>

definition round_half_even :: "nat \<Rightarrow> nat \<Rightarrow> nat" where
  "round_half_even p q =
     (let f = p div q; r = p mod q
      in if 2 * r < q then f else if q < 2 * r then f + 1 else if even f then f else f + 1)"

definition to_double :: "bool \<Rightarrow> nat \<Rightarrow> nat \<Rightarrow> json" where
  "to_double neg p q =
     (if p = 0 then (if neg then JNegZero else JNum 0)
      else
        let k = max (binary_exponent p q) (- 1022) - 52;
            n = (if 0 \<le> k then round_half_even p (q * 2 ^ nat k)
                 else round_half_even (p * 2 ^ nat (- k)) q);
            v = of_nat n * scale2 k
        in if n = 0 then (if neg then JNegZero else JNum 0)
           else if 2 ^ 1024 \<le> v then JInf neg
           else JNum (if neg then - v else v))"

text \<open>
  A number literal at the head of the text: an optional minus sign, an integer part
  without a leading zero, an optional fraction and an optional exponent. Its value is the
  double that the literal denotes.
\<close>

definition number_sign :: "string \<Rightarrow> bool \<times> string" where
  "number_sign s =
     (case s of c # r \<Rightarrow> if c = CHR ''-'' then (True, r) else (False, s) | [] \<Rightarrow> (False, s))"

definition number_fraction :: "string \<Rightarrow> (string \<times> string) option" where
  "number_fraction s =
     (case s of
        c # r \<Rightarrow>
          if c = CHR ''.''
          then (if takeWhile digit r = [] then None
                else Some (takeWhile digit r, dropWhile digit r))
          else Some ([], s)
      | [] \<Rightarrow> Some ([], s))"

definition number_exponent :: "string \<Rightarrow> (bool \<times> string \<times> string) option" where
  "number_exponent s =
     (case s of
        c # r \<Rightarrow>
          if c = CHR ''e'' \<or> c = CHR ''E'' then
            (let (eneg, r1) =
                   (case r of
                      d # r' \<Rightarrow>
                        if d = CHR ''-'' then (True, r')
                        else if d = CHR ''+'' then (False, r')
                        else (False, r)
                    | [] \<Rightarrow> (False, r))
             in if takeWhile digit r1 = [] then None
                else Some (eneg, takeWhile digit r1, dropWhile digit r1))
          else Some (False, [], s)
      | [] \<Rightarrow> Some (False, [], s))"

definition lex_number :: "string \<Rightarrow> (json \<times> string) option" where
  "lex_number s =
     (let (neg, s1) = number_sign s;
          ip = takeWhile digit s1
      in if ip = [] \<or> (length ip > 1 \<and> hd ip = CHR ''0'') then None
         else
           (case number_fraction (dropWhile digit s1) of
              None \<Rightarrow> None
            | Some (fp, s3) \<Rightarrow>
                (case number_exponent s3 of
                   None \<Rightarrow> None
                 | Some (eneg, ep, s4) \<Rightarrow>
                     let m = digits_value (ip @ fp);
                         f = length fp;
                         x = digits_value ep
                     in Some (if eneg then to_double neg m (10 ^ (f + x))
                              else to_double neg (m * 10 ^ x) (10 ^ f), s4))))"

definition json_whitespace :: "char \<Rightarrow> bool" where
  "json_whitespace c \<longleftrightarrow> c \<in> {CHR '' '', CHR 0x09, CHR 0x0A, CHR 0x0D}"

text \<open>
  The tokens of a text. Every step consumes at least one character, so the length of the
  text bounds the number of steps: \<open>tokens\<close> runs \<open>lex\<close> with that many.
\<close>

fun lex :: "nat \<Rightarrow> string \<Rightarrow> token list option" where
  "lex n [] = Some []"
| "lex 0 (c # cs) = None"
| "lex (Suc n) (c # cs) =
     (if json_whitespace c then lex n cs
      else if c = CHR ''{'' then map_option ((#) TLBrace) (lex n cs)
      else if c = CHR ''}'' then map_option ((#) TRBrace) (lex n cs)
      else if c = CHR ''['' then map_option ((#) TLBracket) (lex n cs)
      else if c = CHR '']'' then map_option ((#) TRBracket) (lex n cs)
      else if c = CHR '':'' then map_option ((#) TColon) (lex n cs)
      else if c = CHR '','' then map_option ((#) TComma) (lex n cs)
      else if c = CHR 0x22 then
        (case lex_string (Narrow []) cs of
           Some (str, r) \<Rightarrow> map_option ((#) (TString str)) (lex n r)
         | None \<Rightarrow> None)
      else if c = CHR ''-'' \<or> digit c then
        (case lex_number (c # cs) of
           Some (v, r) \<Rightarrow> map_option ((#) (TNumber v)) (lex n r)
         | None \<Rightarrow> None)
      else if take 4 (c # cs) = ''true'' then map_option ((#) TTrue) (lex n (drop 3 cs))
      else if take 5 (c # cs) = ''false'' then map_option ((#) TFalse) (lex n (drop 4 cs))
      else if take 4 (c # cs) = ''null'' then map_option ((#) TNull) (lex n (drop 3 cs))
      else None)"

definition tokens :: "string \<Rightarrow> token list option" where
  "tokens s = lex (length s) s"

text \<open>The value of a string, and the object of a list of members.\<close>

definition string_value :: "jstring \<Rightarrow> json" where
  "string_value t = (case t of Narrow s \<Rightarrow> JStr s | Wide us \<Rightarrow> JWide us)"

fun narrow_keys :: "(jstring \<times> json) list \<Rightarrow> (string \<times> json) list option" where
  "narrow_keys [] = Some []"
| "narrow_keys ((Narrow k, v) # kvs) = map_option ((#) (k, v)) (narrow_keys kvs)"
| "narrow_keys ((Wide us, v) # kvs) = None"

definition object_value :: "(jstring \<times> json) list \<Rightarrow> json" where
  "object_value kvs = (case narrow_keys kvs of Some nkvs \<Rightarrow> JObj nkvs | None \<Rightarrow> JWideObj kvs)"

text \<open>
  A value at the head of the tokens, and the tokens after it. Every call consumes a token
  first, so the number of tokens bounds the depth.
\<close>

fun parse_value :: "nat \<Rightarrow> token list \<Rightarrow> (json \<times> token list) option"
  and parse_elements :: "nat \<Rightarrow> json list \<Rightarrow> token list \<Rightarrow> (json \<times> token list) option"
  and parse_members :: "nat \<Rightarrow> (jstring \<times> json) list \<Rightarrow> token list \<Rightarrow> (json \<times> token list) option" where
  "parse_value 0 ts = None"
| "parse_value (Suc n) [] = None"
| "parse_value (Suc n) (t # ts) =
     (case t of
        TNull \<Rightarrow> Some (JNull, ts)
      | TTrue \<Rightarrow> Some (JBool True, ts)
      | TFalse \<Rightarrow> Some (JBool False, ts)
      | TNumber v \<Rightarrow> Some (v, ts)
      | TString s \<Rightarrow> Some (string_value s, ts)
      | TLBracket \<Rightarrow>
          (case ts of
             TRBracket # r \<Rightarrow> Some (JArr [], r)
           | _ \<Rightarrow> parse_elements n [] ts)
      | TLBrace \<Rightarrow>
          (case ts of
             TRBrace # r \<Rightarrow> Some (JObj [], r)
           | _ \<Rightarrow> parse_members n [] ts)
      | _ \<Rightarrow> None)"
| "parse_elements 0 acc ts = None"
| "parse_elements (Suc n) acc ts =
     (case parse_value n ts of
        Some (v, TComma # r) \<Rightarrow> parse_elements n (acc @ [v]) r
      | Some (v, TRBracket # r) \<Rightarrow> Some (JArr (acc @ [v]), r)
      | _ \<Rightarrow> None)"
| "parse_members 0 acc ts = None"
| "parse_members (Suc n) acc ts =
     (case ts of
        TString k # TColon # r \<Rightarrow>
          (case parse_value n r of
             Some (v, TComma # r') \<Rightarrow> parse_members n (acc @ [(k, v)]) r'
           | Some (v, TRBrace # r') \<Rightarrow> Some (object_value (acc @ [(k, v)]), r')
           | _ \<Rightarrow> None)
      | _ \<Rightarrow> None)"

definition JSON_parse :: "string \<Rightarrow> json option" where
  "JSON_parse s =
     (case tokens s of
        None \<Rightarrow> None
      | Some ts \<Rightarrow>
          (case parse_value (Suc (length ts)) ts of
             Some (v, []) \<Rightarrow> Some v
           | _ \<Rightarrow> None))"

section \<open>parse-log.ts\<close>

text \<open>
  White space as \<^verbatim>\<open>trim\<close> and the pattern \<^verbatim>\<open>\s\<close> know it, among the 8-bit characters: tab,
  line feed, vertical tab, form feed, carriage return, space and the no-break space.
\<close>

definition js_space :: "char \<Rightarrow> bool" where
  "js_space c \<longleftrightarrow> c \<in> {CHR 0x09, CHR 0x0A, CHR 0x0B, CHR 0x0C, CHR 0x0D, CHR '' '', CHR 0xA0}"

definition trim :: "string \<Rightarrow> string" where
  "trim s = rev (dropWhile js_space (rev (dropWhile js_space s)))"

text \<open>\<^verbatim>\<open>toUpperCase\<close> on the letters a to z; the text it is applied to has no other.\<close>

definition upper :: "char \<Rightarrow> char" where
  "upper c =
     (case index_of c ''abcdefghijklmnopqrstuvwxyz'' of
        Some i \<Rightarrow> ''ABCDEFGHIJKLMNOPQRSTUVWXYZ'' ! i
      | None \<Rightarrow> c)"

text \<open>
  The three patterns of \<^verbatim>\<open>parseLogLine\<close>, each anchored at the start of the text. A match
  gives the captured group and the text after the whole match; \<open>None\<close> is no match. A
  repetition takes all it can: what follows it in each pattern is optional or is a
  character outside the repeated class, so taking less never helps.

  \<^verbatim>\<open>/^(\d{4}-\d{2}-\d{2}T[\d:.]+Z?)\s*/\<close>
\<close>

definition literal :: "string \<Rightarrow> string \<Rightarrow> string option" where
  "literal l s = (if take (length l) s = l then Some (drop (length l) s) else None)"

definition digits :: "nat \<Rightarrow> string \<Rightarrow> string option" where
  "digits n s = (if n \<le> length s \<and> list_all digit (take n s) then Some (drop n s) else None)"

definition clock_char :: "char \<Rightarrow> bool" where
  "clock_char c \<longleftrightarrow> digit c \<or> c = CHR '':'' \<or> c = CHR ''.''"

definition match_date :: "string \<Rightarrow> string option" where
  "match_date s =
     Option.bind (Option.bind (Option.bind (Option.bind (Option.bind (digits 4 s)
       (literal ''-'')) (digits 2)) (literal ''-'')) (digits 2)) (literal ''T'')"

definition match_timestamp :: "string \<Rightarrow> (string \<times> string) option" where
  "match_timestamp s =
     (case match_date s of
        None \<Rightarrow> None
      | Some r \<Rightarrow>
          if takeWhile clock_char r = [] then None
          else
            let r1 = dropWhile clock_char r;
                r2 = (case literal ''Z'' r1 of Some r' \<Rightarrow> r' | None \<Rightarrow> r1)
            in Some (take (length s - length r2) s, dropWhile js_space r2))"

text \<open>\<^verbatim>\<open>/^\[([a-f0-9-]+)\]\s*/i\<close>\<close>

definition tag_char :: "char \<Rightarrow> bool" where
  "tag_char c \<longleftrightarrow> c \<in> set ''abcdefABCDEF0123456789-''"

definition match_uuid :: "string \<Rightarrow> (string \<times> string) option" where
  "match_uuid s =
     (case literal ''['' s of
        None \<Rightarrow> None
      | Some r \<Rightarrow>
          if takeWhile tag_char r = [] then None
          else
            (case literal '']'' (dropWhile tag_char r) of
               None \<Rightarrow> None
             | Some r1 \<Rightarrow> Some (takeWhile tag_char r, dropWhile js_space r1)))"

text \<open>\<^verbatim>\<open>/^\[(OPENAI|USER)\]\s*/i\<close>\<close>

definition literal_ci :: "string \<Rightarrow> string \<Rightarrow> (string \<times> string) option" where
  "literal_ci l s =
     (if map upper (take (length l) s) = l then Some (take (length l) s, drop (length l) s)
      else None)"

definition match_source :: "string \<Rightarrow> (string \<times> string) option" where
  "match_source s =
     (case literal ''['' s of
        None \<Rightarrow> None
      | Some r \<Rightarrow>
          (case (case literal_ci ''OPENAI'' r of Some m \<Rightarrow> Some m | None \<Rightarrow> literal_ci ''USER'' r) of
             None \<Rightarrow> None
           | Some (name, r1) \<Rightarrow>
               (case literal '']'' r1 of
                  None \<Rightarrow> None
                | Some r2 \<Rightarrow> Some (name, dropWhile js_space r2))))"

text \<open>
  The prefix extraction of \<^verbatim>\<open>parseLogLine\<close> on the trimmed line: the timestamp, the
  session id, the source, and \<^verbatim>\<open>remaining\<close>, the text that should be JSON.
\<close>

definition extract_prefixes ::
  "string \<Rightarrow> string option \<times> string option \<times> string option \<times> string" where
  "extract_prefixes trimmedLine =
     (let (ts, remaining) =
            (case match_timestamp trimmedLine of
               Some (t, r) \<Rightarrow> (Some t, r)
             | None \<Rightarrow> (None, trimmedLine));
          (sid, remaining) =
            (case match_uuid remaining of
               Some (u, r) \<Rightarrow> (Some u, r)
             | None \<Rightarrow> (None, remaining));
          (src, remaining) =
            (case match_source remaining of
               Some (n, r) \<Rightarrow> (Some (map upper n), r)
             | None \<Rightarrow> (None, remaining))
      in (ts, sid, src, remaining))"

text \<open>
  \<^verbatim>\<open>parseLogLine\<close>: the decoded line, or \<^verbatim>\<open>null\<close>, and what it writes to the console. The
  payload of the decoded line is whatever \<^verbatim>\<open>JSON.parse\<close> returned: the cast to an event
  checks nothing.
\<close>

definition parseLogLine :: "string \<Rightarrow> nat \<Rightarrow> ParsedLogLine option \<times> warning list" where
  "parseLogLine line n =
     (let trimmedLine = trim line in
      if trimmedLine = [] then (None, [])
      else
        (let (ts, sid, src, jsonStr) = extract_prefixes trimmedLine in
         case JSON_parse jsonStr of
           Some ev \<Rightarrow>
             (Some \<lparr>timestamp = ts, sessionId = sid, source = src,
                    event = ev, rawLine = line, lineNumber = n\<rparr>, [])
         | None \<Rightarrow> (None, [DecodeWarning n (take 100 jsonStr)])))"

text \<open>\<^verbatim>\<open>content.split(/\r?\n/)\<close>: the lines of a text, at least one.\<close>

fun split_lines :: "string \<Rightarrow> string \<Rightarrow> string list" where
  "split_lines acc [] = [acc]"
| "split_lines acc [c] = (if c = CHR 0x0A then [acc, []] else [acc @ [c]])"
| "split_lines acc (c # d # cs) =
     (if c = CHR 0x0A then acc # split_lines [] (d # cs)
      else if c = CHR 0x0D \<and> d = CHR 0x0A then acc # split_lines [] cs
      else split_lines (acc @ [c]) (d # cs))"

record Session =
  session_id :: string
  session_sessionId :: "json option"
  startTime :: "string option"
  session_events :: "ParsedLogLine list"
  model :: "json option"
  voice :: "json option"

text \<open>The decimal digits of a number, as a template literal prints it.\<close>

fun decimal :: "nat \<Rightarrow> string" where
  "decimal n =
     (if n < 10 then [''0123456789'' ! n]
      else decimal (n div 10) @ [''0123456789'' ! (n mod 10)])"

declare decimal.simps [simp del]

text \<open>
  The variables of the loop of \<^verbatim>\<open>parseLogFile\<close>. \<^verbatim>\<open>currentSession\<close> refers to an object
  that is also an element of \<^verbatim>\<open>sessions\<close>: it is kept as the index of that element, and a
  push to its events updates the element.
\<close>

record ParseState =
  sessions :: "Session list"
  currentSession :: "nat option"
  sessionCounter :: nat
  logged :: "warning list"

definition parse_step :: "ParseState \<Rightarrow> ParsedLogLine \<Rightarrow> error + ParseState" where
  "parse_step st parsed =
     (if event parsed = JNull then Inl TypeError
      else if type_of (event parsed) = Some ''session.created'' then
        (let sessionData = get (event parsed) ''session'' in
         Inr (st\<lparr>sessionCounter := sessionCounter st + 1,
                 currentSession := Some (length (sessions st)),
                 sessions := sessions st @
                   [\<lparr>session_id = ''session-'' @ decimal (sessionCounter st + 1),
                     session_sessionId = opt_get sessionData ''id'',
                     startTime = timestamp parsed,
                     session_events = [parsed],
                     model = opt_get sessionData ''model'',
                     voice = opt_get sessionData ''voice''\<rparr>]\<rparr>))
      else
        (case currentSession st of
           Some i \<Rightarrow>
             Inr (st\<lparr>sessions := (sessions st)
                    [i := (sessions st ! i)
                       \<lparr>session_events := session_events (sessions st ! i) @ [parsed]\<rparr>]\<rparr>)
         | None \<Rightarrow>
             Inr (st\<lparr>sessionCounter := sessionCounter st + 1,
                     currentSession := Some (length (sessions st)),
                     sessions := sessions st @
                       [\<lparr>session_id = ''session-'' @ decimal (sessionCounter st + 1),
                         session_sessionId = None,
                         startTime = timestamp parsed,
                         session_events = [parsed],
                         model = None,
                         voice = None\<rparr>]\<rparr>)))"

text \<open>The loop over the lines; \<open>i\<close> is the index of the first of them.\<close>

fun parse_loop :: "ParseState \<Rightarrow> nat \<Rightarrow> string list \<Rightarrow> error + ParseState" where
  "parse_loop st i [] = Inr st"
| "parse_loop st i (l # ls) =
     (case parseLogLine l (i + 1) of
        (None, w) \<Rightarrow> parse_loop (st\<lparr>logged := logged st @ w\<rparr>) (i + 1) ls
      | (Some parsed, w) \<Rightarrow>
          (case parse_step (st\<lparr>logged := logged st @ w\<rparr>) parsed of
             Inl err \<Rightarrow> Inl err
           | Inr st1 \<Rightarrow> parse_loop st1 (i + 1) ls))"

definition parseLogFile :: "string \<Rightarrow> error + Session list \<times> warning list" where
  "parseLogFile content =
     (case parse_loop \<lparr>sessions = [], currentSession = None, sessionCounter = 0, logged = []\<rparr>
             0 (split_lines [] content) of
        Inl err \<Rightarrow> Inl err
      | Inr st \<Rightarrow> Inr (sessions st, logged st))"

section \<open>Auxiliary notions for the proofs\<close>

text \<open>The events the two variables of the aggregation loop hold, in order.\<close>

definition agg_events :: "CycleItem list \<times> DeltaGroup option \<Rightarrow> ParsedLogLine list" where
  "agg_events st = items_events (fst st) @ (case snd st of Some g \<Rightarrow> events g | None \<Rightarrow> [])"

text \<open>The events the grouping loop has placed so far: those emitted, then those pending.\<close>

definition covered :: "GroupState \<Rightarrow> ParsedLogLine list" where
  "covered st = flatten (result st) @ cycleEvents st"

text \<open>
  The buffer of pending events is empty while no cycle is open, and no pending event
  has a \<^verbatim>\<open>null\<close> payload.
\<close>

definition state_ok :: "GroupState \<Rightarrow> bool" where
  "state_ok st \<longleftrightarrow>
     (currentCycle st = None \<longrightarrow> cycleEvents st = []) \<and>
     (\<forall>e\<in>set (cycleEvents st). event e \<noteq> JNull)"


text \<open>
  What the data model asks of a delta group: it is not empty, every member has the
  group's event type, a delta type, and the two line numbers are those of the first and
  of the last member.
\<close>

definition group_ok :: "DeltaGroup \<Rightarrow> bool" where
  "group_ok g \<longleftrightarrow>
     events g \<noteq> [] \<and>
     list_all (\<lambda>m. type_of (event m) = Some (eventType g)) (events g) \<and>
     eventType g \<in> set DELTA_EVENT_TYPES \<and>
     firstLineNumber g = lineNumber (hd (events g)) \<and>
     lastLineNumber g = lineNumber (last (events g))"

definition agg_ok :: "CycleItem list \<times> DeltaGroup option \<Rightarrow> bool" where
  "agg_ok st \<longleftrightarrow>
     (\<forall>g. Group g \<in> set (fst st) \<longrightarrow> group_ok g) \<and> (\<forall>g. snd st = Some g \<longrightarrow> group_ok g)"




text \<open>A decoded line with the given number, event type and further payload fields.\<close>

definition line_of :: "nat \<Rightarrow> string \<Rightarrow> (string \<times> json) list \<Rightarrow> ParsedLogLine" where
  "line_of n ty kvs =
     \<lparr>timestamp = None, sessionId = None, source = None,
      event = JObj ((''type'', JStr ty) # kvs), rawLine = [], lineNumber = n\<rparr>"

text \<open>
  A short session: an orphan \<^verbatim>\<open>response.done\<close>, then a response cycle that streams two
  text deltas and ends with its usage, then a speech-stopped event.
\<close>

definition example_events :: "ParsedLogLine list" where
  "example_events =
     [line_of 1 ''response.done'' [],
      line_of 2 ''response.created'' [(''response'', JObj [(''id'', JStr ''r1'')])],
      line_of 3 ''response.text.delta'' [(''delta'', JStr ''Hel'')],
      line_of 4 ''response.text.delta'' [(''delta'', JStr ''lo'')],
      line_of 5 ''response.text.done'' [],
      line_of 6 ''response.done''
        [(''response'', JObj [(''usage'',
            JObj [(''input_tokens'', JNum 10), (''output_tokens'', JNum 20),
                  (''total_tokens'', JNum 30)])])],
      line_of 7 ''input_audio_buffer.speech_stopped'' []]"

text \<open>The pending buffer of the cycle of the example, as it is when the cycle is flushed.\<close>

definition example_buffer :: "ParsedLogLine list" where
  "example_buffer = take 5 (drop 1 example_events)"



text \<open>The same state with groups emitted before it.\<close>

definition prepend :: "EventGroup list \<Rightarrow> GroupState \<Rightarrow> GroupState" where
  "prepend r0 st = st\<lparr>result := r0 @ result st\<rparr>"

text \<open>An open cycle has no end event, no token usage and no items yet.\<close>

definition cycle_fresh :: "GroupState \<Rightarrow> bool" where
  "cycle_fresh st \<longleftrightarrow>
     (case currentCycle st of
        None \<Rightarrow> True
      | Some c \<Rightarrow> endEvent c = None \<and> tokenUsage c = None \<and> items c = [])"

text \<open>
  In the spec's words: a numeric sub-field of the usage object, 0 when it is missing.
\<close>

definition count_field :: "(string \<times> json) list \<Rightarrow> string \<Rightarrow> rat" where
  "count_field kvs k = (case map_of (rev kvs) k of Some (JNum n) \<Rightarrow> n | _ \<Rightarrow> 0)"

definition number_or_missing :: "(string \<times> json) list \<Rightarrow> string \<Rightarrow> bool" where
  "number_or_missing kvs k =
     (case map_of (rev kvs) k of None \<Rightarrow> True | Some (JNum n) \<Rightarrow> True | Some _ \<Rightarrow> False)"

fun is_phase :: "EventGroup \<Rightarrow> bool" where
  "is_phase (Phase p) = True"
| "is_phase (Cycle c) = False"
| "is_phase (Standalone e) = False"

text \<open>The response cycle that the grouping of the example emits.\<close>

definition example_cycle :: ResponseCycle where
  "example_cycle =
     \<lparr>responseId = Some (JStr ''r1''), startEvent = example_events ! 1,
      endEvent = Some (example_events ! 5),
      items =
        [Line (example_events ! 1),
         Group \<lparr>eventType = ''response.text.delta'',
                events = [example_events ! 2, example_events ! 3],
                firstLineNumber = 3, lastLineNumber = 4\<rparr>,
         Line (example_events ! 4), Line (example_events ! 5)],
      tokenUsage = Some \<lparr>usage_input = JNum 10, usage_output = JNum 20, usage_total = JNum 30\<rparr>\<rparr>"

text \<open>
  The phase marker that the grouping loop emits for an event: one for each of the three
  marker types the loop tests for.
\<close>

definition marks :: "ParsedLogLine \<Rightarrow> EventGroup \<Rightarrow> bool" where
  "marks x g \<longleftrightarrow>
     type_of (event x) = Some SPEECH_START \<and> g = phaseMarker speech x \<or>
     type_of (event x) = Some RESPONSE_START \<and> g = phaseMarker response x \<or>
     type_of (event x) = Some FUNCTION_CALL \<and> g = phaseMarker function_call x"

definition phases_marked :: "ParsedLogLine list \<Rightarrow> EventGroup list \<Rightarrow> bool" where
  "phases_marked es gs \<longleftrightarrow> (\<forall>g\<in>set gs. is_phase g \<longrightarrow> (\<exists>x\<in>set es. marks x g))"

text \<open>The two bytes of a 16-bit sample, the low byte first.\<close>

definition le_bytes :: "16 word \<Rightarrow> 8 word list" where
  "le_bytes s = [ucast s, ucast (drop_bit 8 s)]"

text \<open>
  In the spec's words: the non-empty delta payload string of an event, if it has one, and
  the chunks of a run that decode successfully, in input order. Only a narrow string can
  decode.
\<close>

definition delta_string :: "ParsedLogLine \<Rightarrow> string option" where
  "delta_string e =
     (case get (event e) ''delta'' of
        Some (JStr s) \<Rightarrow> if s \<noteq> [] then Some s else None
      | _ \<Rightarrow> None)"

definition decoded_chunk :: "ParsedLogLine \<Rightarrow> real list list" where
  "decoded_chunk e =
     (case delta_string e of
        Some s \<Rightarrow> (case decodeAudioDelta s of Inr d \<Rightarrow> [d] | Inl err \<Rightarrow> [])
      | None \<Rightarrow> [])"

definition decoded_chunks :: "ParsedLogLine list \<Rightarrow> real list list" where
  "decoded_chunks evts = concat (map decoded_chunk evts)"

text \<open>A run of one audio delta whose payload is a single space.\<close>

definition blank_run :: "ParsedLogLine list" where
  "blank_run = [line_of 1 ''response.audio.delta'' [(''delta'', JStr '' '')]]"

text \<open>
  A run of four audio deltas: the samples 16384 and -16384, a payload that is no base64, an
  empty payload, and the sample 0.
\<close>

definition audio_run :: "ParsedLogLine list" where
  "audio_run =
     [line_of 1 ''response.audio.delta'' [(''delta'', JStr ''AEAAwA=='')],
      line_of 2 ''response.audio.delta'' [(''delta'', JStr ''!'')],
      line_of 3 ''response.audio.delta'' [(''delta'', JStr [])],
      line_of 4 ''response.audio.delta'' [(''delta'', JStr ''AAA='')]]"

text \<open>The remainder of a line after the prefix extraction: what should be JSON.\<close>

definition payload_text :: "string \<Rightarrow> string" where
  "payload_text line = snd (snd (snd (extract_prefixes (trim line))))"

text \<open>
  The grammar of a line, in the spec's words. A timestamp is
  \<^verbatim>\<open>YYYY-MM-DDTHH:MM:SS\<close>, then optionally a dot and three digits, then optionally
  \<^verbatim>\<open>Z\<close>; a session tag is a non-empty run of hexadecimal digits (of either case) and
  hyphens; a source is OPENAI or USER in any case.
\<close>

definition template_char :: "char \<Rightarrow> char \<Rightarrow> bool" where
  "template_char p c = (if p = CHR ''d'' then digit c else c = p)"

definition grammar_timestamp :: "string \<Rightarrow> bool" where
  "grammar_timestamp t =
     (let b = (if t \<noteq> [] \<and> last t = CHR ''Z'' then butlast t else t) in
      list_all2 template_char ''dddd-dd-ddTdd:dd:dd'' (take 19 b) \<and>
      (drop 19 b = [] \<or> list_all2 template_char ''.ddd'' (drop 19 b)))"

definition grammar_tag :: "string \<Rightarrow> bool" where
  "grammar_tag g \<longleftrightarrow> g \<noteq> [] \<and> list_all (\<lambda>c. c \<in> set ''0123456789abcdefABCDEF-'') g"

definition grammar_source :: "string \<Rightarrow> bool" where
  "grammar_source s \<longleftrightarrow> map upper s = ''OPENAI'' \<or> map upper s = ''USER''"

text \<open>
  A line of the grammar: white space, then each prefix token that is present with the
  white space after it, the session tag and the source in brackets, then the payload and
  white space.
\<close>

definition log_line ::
  "string \<Rightarrow> (string \<times> string) option \<Rightarrow> (string \<times> string) option \<Rightarrow> (string \<times> string) option
     \<Rightarrow> string \<Rightarrow> string \<Rightarrow> string" where
  "log_line w0 t g s p w4 =
     w0 @ (case t of Some (ts, w) \<Rightarrow> ts @ w | None \<Rightarrow> []) @
     (case g of Some (tag, w) \<Rightarrow> ''['' @ tag @ '']'' @ w | None \<Rightarrow> []) @
     (case s of Some (src, w) \<Rightarrow> ''['' @ src @ '']'' @ w | None \<Rightarrow> []) @ p @ w4"

definition token_ok :: "(string \<Rightarrow> bool) \<Rightarrow> (string \<times> string) option \<Rightarrow> bool" where
  "token_ok valid x = (case x of Some (tok, w) \<Rightarrow> valid tok \<and> list_all js_space w | None \<Rightarrow> True)"

text \<open>The payload of the line that the spec gives as an example, and its value.\<close>

definition example_payload :: string where
  "example_payload =
     ''{\"type\":\"session.created\",\"event_id\":\"e1\",\"session\":{\"id\":\"s1\",\"model\":\"gpt-x\"}}''"

definition example_event :: json where
  "example_event =
     JObj [(''type'', JStr ''session.created''), (''event_id'', JStr ''e1''),
           (''session'', JObj [(''id'', JStr ''s1''), (''model'', JStr ''gpt-x'')])]"

text \<open>The state in which the loop of \<^verbatim>\<open>parseLogFile\<close> starts.\<close>

definition parse_init :: ParseState where
  "parse_init = \<lparr>sessions = [], currentSession = None, sessionCounter = 0, logged = []\<rparr>"

text \<open>The decoded lines of a list of lines whose first has the index \<open>i\<close>, in order.\<close>

fun decoded_from :: "nat \<Rightarrow> string list \<Rightarrow> ParsedLogLine list" where
  "decoded_from i [] = []"
| "decoded_from i (l # ls) =
     (case fst (parseLogLine l (i + 1)) of
        Some parsed \<Rightarrow> parsed # decoded_from (i + 1) ls
      | None \<Rightarrow> decoded_from (i + 1) ls)"

text \<open>
  Segmentation in the spec's words: a line whose event type is the session-start marker
  opens a new session; any other line is appended to the current session, or opens an
  implicit session when there is none yet.
\<close>

fun segment_loop :: "ParsedLogLine list list \<Rightarrow> ParsedLogLine list \<Rightarrow> ParsedLogLine list list" where
  "segment_loop segs [] = segs"
| "segment_loop segs (p # ps) =
     segment_loop
       (if type_of (event p) = Some ''session.created'' \<or> segs = [] then segs @ [[p]]
        else butlast segs @ [last segs @ [p]]) ps"

text \<open>\<^verbatim>\<open>currentSession\<close> is the session pushed last, if any.\<close>

definition current_last :: "ParseState \<Rightarrow> bool" where
  "current_last st \<longleftrightarrow>
     currentSession st = (if sessions st = [] then None else Some (length (sessions st) - 1))"

text \<open>
  In the spec's words: a line that is blank or of white space only, and a value that is
  a structured document, a JSON object.
\<close>

definition whitespace_only :: "string \<Rightarrow> bool" where
  "whitespace_only line \<longleftrightarrow>
     list_all (\<lambda>c. c \<in> {CHR 0x09, CHR 0x0A, CHR 0x0B, CHR 0x0C, CHR 0x0D, CHR '' '', CHR 0xA0}) line"

definition is_object :: "json \<Rightarrow> bool" where
  "is_object v = (case v of JObj kvs \<Rightarrow> True | JWideObj kvs \<Rightarrow> True | _ \<Rightarrow> False)"

section \<open>Properties of the grouping engine\<close>


lemma items_events_append [simp]: "items_events (a @ b) = items_events a @ items_events b"
  by (simp add: items_events_def)

lemma items_events_Nil [simp]: "items_events [] = []"
  by (simp add: items_events_def)

lemma items_events_Cons [simp]: "items_events (x # xs) = item_events x @ items_events xs"
  by (simp add: items_events_def)

lemma flatten_append [simp]: "flatten (a @ b) = flatten a @ flatten b"
  by (simp add: flatten_def)

lemma flatten_Nil [simp]: "flatten [] = []"
  by (simp add: flatten_def)

lemma flatten_Cons [simp]: "flatten (x # xs) = group_events x @ flatten xs"
  by (simp add: flatten_def)

lemma agg_step_events: "agg_events (aggregate_step st e ty) = agg_events st @ [e]"
  by (cases st) (auto simp: agg_events_def aggregate_step_def newGroup_def isDeltaEvent_def
      split: option.splits)

lemma agg_loop_events:
  "aggregate_loop st es = Inr st' \<Longrightarrow> agg_events st' = agg_events st @ es"
proof (induction es arbitrary: st)
  case Nil
  then show ?case by simp
next
  case (Cons e es)
  then show ?case
    by (auto simp: agg_step_events split: sum.splits)
qed

lemma agg_loop_total:
  "\<forall>e\<in>set es. event e \<noteq> JNull \<Longrightarrow> \<exists>st'. aggregate_loop st es = Inr st'"
  by (induction es arbitrary: st) (auto simp: event_type_def)

lemma aggregate_events:
  assumes "aggregateDeltaEvents es = Inr its"
  shows "items_events its = es"
proof -
  from assms obtain r g where loop: "aggregate_loop ([], None) es = Inr (r, g)"
    and its: "its = (case g of Some g' \<Rightarrow> r @ [Group g'] | None \<Rightarrow> r)"
    by (auto simp: aggregateDeltaEvents_def split: sum.splits prod.splits)
  from agg_loop_events [OF loop] have "agg_events (r, g) = es"
    by (simp add: agg_events_def)
  with its show ?thesis
    by (cases g) (simp_all add: agg_events_def)
qed

lemma aggregate_total:
  assumes "\<forall>e\<in>set es. event e \<noteq> JNull"
  shows "\<exists>its. aggregateDeltaEvents es = Inr its"
proof -
  from agg_loop_total [OF assms] obtain st' where "aggregate_loop ([], None) es = Inr st'"
    by blast
  then show ?thesis
    by (cases st') (simp add: aggregateDeltaEvents_def)
qed

lemma flushCycle_ok:
  assumes "state_ok st"
  shows "\<exists>st'. flushCycle st = Inr st' \<and> covered st' = covered st \<and> state_ok st' \<and>
           currentCycle st' = None \<and> cycleEvents st' = []"
proof (cases "currentCycle st")
  case None
  with assms show ?thesis
    by (simp add: flushCycle_def state_ok_def)
next
  case (Some c)
  from assms have "\<forall>e\<in>set (cycleEvents st). event e \<noteq> JNull"
    by (simp add: state_ok_def)
  from aggregate_total [OF this] obtain its where its: "aggregateDeltaEvents (cycleEvents st) = Inr its"
    by blast
  from aggregate_events [OF its] have "items_events its = cycleEvents st" .
  with Some its show ?thesis
    by (simp add: flushCycle_def state_ok_def covered_def)
qed

lemma group_step_ok:
  assumes "state_ok st" and "event e \<noteq> JNull"
  shows "\<exists>st'. group_step st e ty = Inr st' \<and> covered st' = covered st @ [e] \<and> state_ok st'"
proof -
  from flushCycle_ok [OF assms(1)] obtain st1 where
    f: "flushCycle st = Inr st1" "covered st1 = covered st" "state_ok st1"
       "currentCycle st1 = None" "cycleEvents st1 = []"
    by blast
  show ?thesis
  proof (cases "currentCycle st")
    case None
    with assms f show ?thesis
      by (auto simp: group_step_def covered_def state_ok_def phaseMarker_def)
  next
    case (Some c)
    let ?st2 = "\<lparr>result = result st,
                currentCycle =
                  Some (c\<lparr>endEvent := Some e,
                          tokenUsage :=
                            (if ty = Some ''response.done''
                             then (case usage_of e of Some u \<Rightarrow> Some u | None \<Rightarrow> tokenUsage c)
                             else tokenUsage c)\<rparr>),
                cycleEvents = cycleEvents st @ [e]\<rparr>"
    from assms have "state_ok ?st2"
      by (simp add: state_ok_def)
    from flushCycle_ok [OF this] obtain st3 where
      g: "flushCycle ?st2 = Inr st3" "covered st3 = covered ?st2" "state_ok st3"
      by blast
    have c2: "covered ?st2 = covered st @ [e]"
      by (simp add: covered_def)
    from Some assms f g c2 show ?thesis
      by (auto simp: group_step_def covered_def state_ok_def phaseMarker_def)
  qed
qed

lemma group_loop_ok:
  "state_ok st \<Longrightarrow> \<forall>e\<in>set es. event e \<noteq> JNull \<Longrightarrow>
     \<exists>st'. group_loop st es = Inr st' \<and> covered st' = covered st @ es \<and> state_ok st'"
proof (induction es arbitrary: st)
  case Nil
  then show ?case by simp
next
  case (Cons e es)
  from Cons.prems have ne: "event e \<noteq> JNull" by simp
  from group_step_ok [OF Cons.prems(1) ne] obtain st1 where
    s: "group_step st e (type_of (event e)) = Inr st1" "covered st1 = covered st @ [e]" "state_ok st1"
    by blast
  from Cons.IH [OF s(3)] Cons.prems(2) obtain st' where
    "group_loop st1 es = Inr st'" "covered st' = covered st1 @ es" "state_ok st'"
    by auto
  with s ne show ?case
    by (simp add: event_type_def)
qed

text \<open>
  Claim C1. On every sequence of decoded lines (none with a \<^verbatim>\<open>null\<close> payload, which the
  type of a decoded line excludes) \<^verbatim>\<open>groupEvents\<close> returns, and its output covers every
  input event exactly once: flattened in order (a standalone event gives its event, a
  response cycle the events of its items with the members of each delta group expanded,
  a phase marker nothing) it is the input sequence itself.
\<close>

theorem groupEvents_covers:
  assumes "\<forall>e\<in>set es. event e \<noteq> JNull"
  shows "\<exists>gs. groupEvents es = Inr gs \<and> flatten gs = es"
proof -
  have "state_ok init_state"
    by (simp add: state_ok_def init_state_def)
  from group_loop_ok [OF this assms] obtain st where
    l: "group_loop init_state es = Inr st" "covered st = covered init_state @ es" "state_ok st"
    by blast
  from flushCycle_ok [OF l(3)] obtain st1 where
    f: "flushCycle st = Inr st1" "covered st1 = covered st" "cycleEvents st1 = []"
    by blast
  from l f show ?thesis
    by (simp add: groupEvents_def covered_def init_state_def)
qed

theorem groupEvents_covers_witness:
  "\<exists>gs. groupEvents example_events = Inr gs \<and> flatten gs = example_events"
  using groupEvents_covers [of example_events]
  by (simp add: example_events_def line_of_def)

lemma group_ok_new:
  "t \<in> set DELTA_EVENT_TYPES \<Longrightarrow> type_of (event e) = Some t \<Longrightarrow> group_ok (newGroup t e)"
  by (simp add: group_ok_def newGroup_def)

lemma group_ok_extend:
  "group_ok g \<Longrightarrow> type_of (event e) = Some (eventType g) \<Longrightarrow>
     group_ok (g\<lparr>events := events g @ [e], lastLineNumber := lineNumber e\<rparr>)"
  by (simp add: group_ok_def)

lemma agg_step_ok:
  assumes "agg_ok st"
  shows "agg_ok (aggregate_step st e (type_of (event e)))"
proof (cases st)
  case (Pair r c)
  show ?thesis
  proof (cases "isDeltaEvent (type_of (event e))")
    case False
    with Pair assms show ?thesis
      by (auto simp: agg_ok_def aggregate_step_def split: option.splits)
  next
    case True
    then obtain t where t: "type_of (event e) = Some t" "t \<in> set DELTA_EVENT_TYPES"
      by (auto simp: isDeltaEvent_def split: option.splits)
    with Pair assms True show ?thesis
      by (auto simp: agg_ok_def aggregate_step_def group_ok_new group_ok_extend
          split: option.splits)
  qed
qed

lemma agg_loop_ok:
  "aggregate_loop st es = Inr st' \<Longrightarrow> agg_ok st \<Longrightarrow> agg_ok st'"
proof (induction es arbitrary: st)
  case Nil
  then show ?case by simp
next
  case (Cons e es)
  then show ?case
    by (auto simp: event_type_def agg_step_ok split: if_splits)
qed

lemma aggregate_groups_ok:
  assumes "aggregateDeltaEvents es = Inr its" and "Group g \<in> set its"
  shows "group_ok g"
proof -
  from assms(1) obtain r c where loop: "aggregate_loop ([], None) es = Inr (r, c)"
    and its: "its = (case c of Some g' \<Rightarrow> r @ [Group g'] | None \<Rightarrow> r)"
    by (auto simp: aggregateDeltaEvents_def split: sum.splits prod.splits)
  have "agg_ok ([], None)"
    by (simp add: agg_ok_def)
  from agg_loop_ok [OF loop this] have "agg_ok (r, c)" .
  with its assms(2) show ?thesis
    by (cases c) (auto simp: agg_ok_def)
qed

text \<open>
  Claim C4. On every buffer (of lines whose payload is not \<^verbatim>\<open>null\<close>) delta aggregation
  returns, and every delta group of its output is not empty, all its members have the
  group's event type, its first and last line numbers are the line numbers of its first
  and last member, and its members are one contiguous stretch of the input, in the
  input's order: the input is the events of the items before the group, then the
  members of the group, then the events of the items after it.
\<close>

theorem delta_group_invariant:
  assumes "\<forall>e\<in>set es. event e \<noteq> JNull"
  shows "\<exists>its. aggregateDeltaEvents es = Inr its \<and>
           (\<forall>a g b. its = a @ Group g # b \<longrightarrow>
              events g \<noteq> [] \<and>
              (\<forall>m\<in>set (events g). type_of (event m) = Some (eventType g)) \<and>
              firstLineNumber g = lineNumber (hd (events g)) \<and>
              lastLineNumber g = lineNumber (last (events g)) \<and>
              es = items_events a @ events g @ items_events b)"
proof -
  from aggregate_total [OF assms] obtain its where its: "aggregateDeltaEvents es = Inr its"
    by blast
  have "events g \<noteq> [] \<and>
        (\<forall>m\<in>set (events g). type_of (event m) = Some (eventType g)) \<and>
        firstLineNumber g = lineNumber (hd (events g)) \<and>
        lastLineNumber g = lineNumber (last (events g)) \<and>
        es = items_events a @ events g @ items_events b"
    if split: "its = a @ Group g # b" for a g b
  proof -
    from split have "Group g \<in> set its" by simp
    from aggregate_groups_ok [OF its this] have ok: "group_ok g" .
    from aggregate_events [OF its] split have "es = items_events a @ events g @ items_events b"
      by simp
    with ok show ?thesis
      by (simp add: group_ok_def list_all_iff)
  qed
  with its show ?thesis by blast
qed

lemmas eval_defs = example_events_def line_of_def aggregateDeltaEvents_def event_type_def
  aggregate_step_def type_of_def get_def isDeltaEvent_def DELTA_EVENT_TYPES_def newGroup_def

lemma example_buffer_aggregate:
  "aggregateDeltaEvents example_buffer =
     Inr [Line (example_events ! 1),
          Group \<lparr>eventType = ''response.text.delta'',
                 events = [example_events ! 2, example_events ! 3],
                 firstLineNumber = 3, lastLineNumber = 4\<rparr>,
          Line (example_events ! 4), Line (example_events ! 5)]"
  by (simp add: example_buffer_def eval_defs)

theorem delta_group_invariant_witness:
  "\<exists>its a g b. aggregateDeltaEvents example_buffer = Inr its \<and> its = a @ Group g # b \<and>
     events g = [example_events ! 2, example_events ! 3] \<and>
     eventType g = ''response.text.delta'' \<and>
     firstLineNumber g = lineNumber (hd (events g)) \<and>
     lastLineNumber g = lineNumber (last (events g)) \<and>
     example_buffer = items_events a @ events g @ items_events b"
proof -
  have "\<forall>e\<in>set example_buffer. event e \<noteq> JNull"
    by (simp add: example_buffer_def example_events_def line_of_def)
  from delta_group_invariant [OF this] obtain its where
    its: "aggregateDeltaEvents example_buffer = Inr its" and
    inv: "\<And>a g b. its = a @ Group g # b \<Longrightarrow>
              events g \<noteq> [] \<and>
              (\<forall>m\<in>set (events g). type_of (event m) = Some (eventType g)) \<and>
              firstLineNumber g = lineNumber (hd (events g)) \<and>
              lastLineNumber g = lineNumber (last (events g)) \<and>
              example_buffer = items_events a @ events g @ items_events b"
    by blast
  let ?g = "\<lparr>eventType = ''response.text.delta'',
             events = [example_events ! 2, example_events ! 3],
             firstLineNumber = 3, lastLineNumber = 4\<rparr>"
  from its example_buffer_aggregate
  have split: "its = [Line (example_events ! 1)] @ Group ?g #
                 [Line (example_events ! 4), Line (example_events ! 5)]"
    by simp
  from inv [OF split] its split show ?thesis
    by (intro exI [of _ its] exI [of _ "[Line (example_events ! 1)]"] exI [of _ ?g]
        exI [of _ "[Line (example_events ! 4), Line (example_events ! 5)]"]) simp
qed










lemma map_raising_total:
  "\<forall>x\<in>set xs. f x = Inr (g x) \<Longrightarrow> map_raising f xs = Inr (map g xs)"
  by (induction xs) auto







lemma group_loop_append:
  "group_loop st (xs @ ys) =
     (case group_loop st xs of Inl err \<Rightarrow> Inl err | Inr st' \<Rightarrow> group_loop st' ys)"
  by (induction xs arbitrary: st) (auto split: sum.splits)

lemma flushCycle_prepend:
  "flushCycle (prepend r0 st) =
     (case flushCycle st of Inl err \<Rightarrow> Inl err | Inr st' \<Rightarrow> Inr (prepend r0 st'))"
  by (auto simp: flushCycle_def prepend_def split: option.splits sum.splits)

lemma prepend_fields [simp]:
  "result (prepend r0 st) = r0 @ result st"
  "currentCycle (prepend r0 st) = currentCycle st"
  "cycleEvents (prepend r0 st) = cycleEvents st"
  by (simp_all add: prepend_def)

lemma group_step_prepend:
  "group_step (prepend r0 st) e ty =
     (case group_step st e ty of Inl err \<Rightarrow> Inl err | Inr st' \<Rightarrow> Inr (prepend r0 st'))"
proof -
  have close: "flushCycle \<lparr>result = r0 @ result st, currentCycle = c, cycleEvents = b\<rparr> =
      (case flushCycle \<lparr>result = result st, currentCycle = c, cycleEvents = b\<rparr> of
         Inl err \<Rightarrow> Inl err | Inr st' \<Rightarrow> Inr (prepend r0 st'))" for c b
    using flushCycle_prepend [of r0 "\<lparr>result = result st, currentCycle = c, cycleEvents = b\<rparr>"]
    by (simp add: prepend_def)
  show ?thesis
    unfolding group_step_def
    by (auto simp: flushCycle_prepend close split: sum.splits option.splits)
qed

lemma group_loop_prepend:
  "group_loop (prepend r0 st) es =
     (case group_loop st es of Inl err \<Rightarrow> Inl err | Inr st' \<Rightarrow> Inr (prepend r0 st'))"
proof (induction es arbitrary: st)
  case Nil
  then show ?case by simp
next
  case (Cons e es)
  then show ?case
    by (auto simp: group_step_prepend split: sum.splits)
qed

lemma groupEvents_from_closed:
  assumes "groupEvents es = Inr rest"
  shows "\<exists>st st'. group_loop \<lparr>result = r0, currentCycle = None, cycleEvents = []\<rparr> es = Inr st \<and>
           flushCycle st = Inr st' \<and> result st' = r0 @ rest"
proof -
  from assms obtain s s' where s: "group_loop init_state es = Inr s" "flushCycle s = Inr s'"
    "rest = result s'"
    by (auto simp: groupEvents_def split: sum.splits)
  have "\<lparr>result = r0, currentCycle = None, cycleEvents = []\<rparr> = prepend r0 init_state"
    by (simp add: prepend_def init_state_def)
  with s show ?thesis
    by (simp add: group_loop_prepend flushCycle_prepend)
qed

lemma flushCycle_fresh:
  "flushCycle st = Inr st' \<Longrightarrow> cycle_fresh st'"
  by (auto simp: flushCycle_def cycle_fresh_def split: option.splits sum.splits)

lemma group_step_fresh:
  assumes "group_step st e ty = Inr st'" "cycle_fresh st"
  shows "cycle_fresh st'"
  using assms unfolding group_step_def
  by (auto simp: cycle_fresh_def dest!: flushCycle_fresh split: if_splits sum.splits option.splits)

lemma group_loop_fresh:
  "group_loop st es = Inr st' \<Longrightarrow> cycle_fresh st \<Longrightarrow> cycle_fresh st'"
proof (induction es arbitrary: st)
  case Nil
  then show ?case by simp
next
  case (Cons e es)
  then show ?case
    by (auto split: sum.splits dest: group_step_fresh)
qed

lemma usage_of_object:
  assumes "opt_get (get (event e) ''response'') ''usage'' = Some (JObj kvs)"
    and "number_or_missing kvs ''input_tokens''"
    and "number_or_missing kvs ''output_tokens''"
    and "number_or_missing kvs ''total_tokens''"
  shows "usage_of e =
           Some \<lparr>usage_input = JNum (count_field kvs ''input_tokens''),
                 usage_output = JNum (count_field kvs ''output_tokens''),
                 usage_total = JNum (count_field kvs ''total_tokens'')\<rparr>"
  using assms
  by (auto simp: usage_of_def Let_def get_def or_zero_def count_field_def number_or_missing_def
      split: option.splits json.splits)

lemma group_step_done_open:
  assumes "currentCycle st = Some c" "cycle_fresh st"
    and "ty = Some ''response.done''"
    and "aggregateDeltaEvents (cycleEvents st @ [e]) = Inr its"
  shows "group_step st e ty =
           Inr \<lparr>result = result st @
                   [Cycle \<lparr>responseId = responseId c, startEvent = startEvent c,
                           endEvent = Some e, items = its, tokenUsage = usage_of e\<rparr>],
                currentCycle = None, cycleEvents = []\<rparr>"
  using assms
  by (auto simp: group_step_def flushCycle_def cycle_fresh_def SPEECH_START_def
      RESPONSE_START_def split: option.splits)

lemma group_step_done_orphan:
  assumes "currentCycle st = None" "cycleEvents st = []"
    and "ty = Some ''response.done''"
  shows "group_step st e ty =
           Inr \<lparr>result = result st @ [Standalone e], currentCycle = None, cycleEvents = []\<rparr>"
  using assms
  by (simp add: group_step_def SPEECH_START_def RESPONSE_START_def)

text \<open>
  Claim C2. Let a \<^verbatim>\<open>response.done\<close> event arrive after any events and before any others
  (none with a \<^verbatim>\<open>null\<close> payload). When a response cycle is open at that point, the cycle
  is closed and emitted with this line as its end event, with the aggregation of the
  pending buffer and this line as its items, and with the token usage of the payload;
  when no cycle is open the event is emitted as a standalone event. In both cases the
  groups of the earlier events come before and those of the later events after. When the
  payload's nested usage is an object whose three counts are numbers or missing, the
  token usage is set to these counts, a missing one being 0.
\<close>

theorem response_done_closes_cycle:
  assumes nn: "\<forall>x\<in>set (pre @ e # post). event x \<noteq> JNull"
    and ty: "type_of (event e) = Some ''response.done''"
  shows "\<exists>st rest.
           group_loop init_state pre = Inr st \<and> groupEvents post = Inr rest \<and>
           (case currentCycle st of
              Some c \<Rightarrow>
                (\<exists>its. aggregateDeltaEvents (cycleEvents st @ [e]) = Inr its \<and>
                   groupEvents (pre @ e # post) =
                     Inr (result st @
                          [Cycle \<lparr>responseId = responseId c, startEvent = startEvent c,
                                  endEvent = Some e, items = its, tokenUsage = usage_of e\<rparr>] @
                          rest))
            | None \<Rightarrow> groupEvents (pre @ e # post) = Inr (result st @ [Standalone e] @ rest)) \<and>
           (\<forall>kvs. opt_get (get (event e) ''response'') ''usage'' = Some (JObj kvs) \<and>
                  number_or_missing kvs ''input_tokens'' \<and>
                  number_or_missing kvs ''output_tokens'' \<and>
                  number_or_missing kvs ''total_tokens'' \<longrightarrow>
              usage_of e =
                Some \<lparr>usage_input = JNum (count_field kvs ''input_tokens''),
                      usage_output = JNum (count_field kvs ''output_tokens''),
                      usage_total = JNum (count_field kvs ''total_tokens'')\<rparr>)"
proof -
  have ok0: "state_ok init_state"
    by (simp add: state_ok_def init_state_def)
  from nn have nn_pre: "\<forall>x\<in>set pre. event x \<noteq> JNull" and ne: "event e \<noteq> JNull"
    and nn_post: "\<forall>x\<in>set post. event x \<noteq> JNull"
    by simp_all
  from group_loop_ok [OF ok0 nn_pre] obtain st where
    st: "group_loop init_state pre = Inr st" "state_ok st"
    by blast
  have "cycle_fresh init_state"
    by (simp add: cycle_fresh_def init_state_def)
  from group_loop_fresh [OF st(1) this] have fresh: "cycle_fresh st" .
  from groupEvents_covers [OF nn_post] obtain rest where rest: "groupEvents post = Inr rest"
    by blast
  have run: "groupEvents (pre @ e # post) = Inr (R @ rest)"
    if step: "group_step st e (Some ''response.done'') =
                Inr \<lparr>result = R, currentCycle = None, cycleEvents = []\<rparr>" for R
  proof -
    from groupEvents_from_closed [OF rest, of R] obtain s s' where
      s: "group_loop \<lparr>result = R, currentCycle = None, cycleEvents = []\<rparr> post = Inr s"
         "flushCycle s = Inr s'" "result s' = R @ rest"
      by blast
    with st(1) step ty ne show ?thesis
      by (simp add: groupEvents_def group_loop_append event_type_def)
  qed
  have main: "(case currentCycle st of
              Some c \<Rightarrow>
                (\<exists>its. aggregateDeltaEvents (cycleEvents st @ [e]) = Inr its \<and>
                   groupEvents (pre @ e # post) =
                     Inr (result st @
                          [Cycle \<lparr>responseId = responseId c, startEvent = startEvent c,
                                  endEvent = Some e, items = its, tokenUsage = usage_of e\<rparr>] @
                          rest))
            | None \<Rightarrow> groupEvents (pre @ e # post) = Inr (result st @ [Standalone e] @ rest))"
  proof (cases "currentCycle st")
    case None
    with st(2) have "cycleEvents st = []"
      by (simp add: state_ok_def)
    from run [OF group_step_done_orphan [OF None this refl]] None show ?thesis
      by simp
  next
    case (Some c)
    from st(2) ne have "\<forall>x\<in>set (cycleEvents st @ [e]). event x \<noteq> JNull"
      by (simp add: state_ok_def)
    from aggregate_total [OF this] obtain its where
      its: "aggregateDeltaEvents (cycleEvents st @ [e]) = Inr its"
      by blast
    from run [OF group_step_done_open [OF Some fresh refl its]] Some its show ?thesis
      by simp
  qed
  from st(1) rest main usage_of_object show ?thesis
    by blast
qed

lemmas group_eval_defs = eval_defs group_step_def flushCycle_def init_state_def
  SPEECH_START_def RESPONSE_START_def FUNCTION_CALL_def phaseMarker_def opt_get_def
  usage_of_def or_zero_def groupEvents_def

theorem response_done_closes_cycle_witness:
  "groupEvents example_events =
     Inr [Standalone (example_events ! 0), phaseMarker response (example_events ! 1),
          Cycle example_cycle, Standalone (example_events ! 6)] \<and>
   groupEvents [example_events ! 0] = Inr [Standalone (example_events ! 0)]"
proof -
  let ?pre = "take 5 example_events" and ?e = "example_events ! 5"
    and ?post = "[example_events ! 6]"
  have split: "example_events = ?pre @ ?e # ?post"
    by (simp add: example_events_def)
  have nn: "\<forall>x\<in>set (?pre @ ?e # ?post). event x \<noteq> JNull"
    by (simp add: example_events_def line_of_def)
  have ty: "type_of (event ?e) = Some ''response.done''"
    by (simp add: eval_defs)
  from response_done_closes_cycle [OF nn ty] obtain st rest where
    st: "group_loop init_state ?pre = Inr st" and rest: "groupEvents ?post = Inr rest" and
    c: "case currentCycle st of
          Some c \<Rightarrow>
            (\<exists>its. aggregateDeltaEvents (cycleEvents st @ [?e]) = Inr its \<and>
               groupEvents (?pre @ ?e # ?post) =
                 Inr (result st @
                      [Cycle \<lparr>responseId = responseId c, startEvent = startEvent c,
                              endEvent = Some ?e, items = its, tokenUsage = usage_of ?e\<rparr>] @
                      rest))
        | None \<Rightarrow> groupEvents (?pre @ ?e # ?post) = Inr (result st @ [Standalone ?e] @ rest)"
    by blast
  have st_eval: "group_loop init_state ?pre =
      Inr \<lparr>result = [Standalone (example_events ! 0), phaseMarker response (example_events ! 1)],
           currentCycle = Some \<lparr>responseId = Some (JStr ''r1''), startEvent = example_events ! 1,
             endEvent = None, items = [], tokenUsage = None\<rparr>,
           cycleEvents = [example_events ! 1, example_events ! 2, example_events ! 3,
             example_events ! 4]\<rparr>"
    by (simp add: group_eval_defs)
  have rest_eval: "groupEvents ?post = Inr [Standalone (example_events ! 6)]"
    by (simp add: group_eval_defs)
  have agg_eval: "aggregateDeltaEvents
      ([example_events ! 1, example_events ! 2, example_events ! 3, example_events ! 4] @ [?e]) =
      Inr (items example_cycle)"
    by (simp add: example_cycle_def eval_defs)
  have usage_eval: "usage_of ?e = tokenUsage example_cycle"
    by (simp add: example_cycle_def group_eval_defs)
  from st st_eval have st_is: "st =
      \<lparr>result = [Standalone (example_events ! 0), phaseMarker response (example_events ! 1)],
           currentCycle = Some \<lparr>responseId = Some (JStr ''r1''), startEvent = example_events ! 1,
             endEvent = None, items = [], tokenUsage = None\<rparr>,
           cycleEvents = [example_events ! 1, example_events ! 2, example_events ! 3,
             example_events ! 4]\<rparr>"
    by simp
  from rest rest_eval have rest_is: "rest = [Standalone (example_events ! 6)]"
    by simp
  from c agg_eval usage_eval have first: "groupEvents (?pre @ ?e # ?post) =
     Inr [Standalone (example_events ! 0), phaseMarker response (example_events ! 1),
          Cycle example_cycle, Standalone (example_events ! 6)]"
    unfolding st_is rest_is by (simp add: example_cycle_def)
  have nn0: "\<forall>x\<in>set ([] @ example_events ! 0 # []). event x \<noteq> JNull"
    by (simp add: example_events_def line_of_def)
  have ty0: "type_of (event (example_events ! 0)) = Some ''response.done''"
    by (simp add: eval_defs)
  from response_done_closes_cycle [OF nn0 ty0]
  have second: "groupEvents [example_events ! 0] = Inr [Standalone (example_events ! 0)]"
    by (auto simp: init_state_def groupEvents_def flushCycle_def)
  from first second split show ?thesis
    by simp
qed

lemma phases_marked_mono:
  "phases_marked es gs \<Longrightarrow> set es \<subseteq> set es' \<Longrightarrow> phases_marked es' gs"
  by (auto simp: phases_marked_def)

lemma flushCycle_result:
  "flushCycle st = Inr st' \<Longrightarrow> \<exists>new. result st' = result st @ new \<and> (\<forall>g\<in>set new. \<not> is_phase g)"
  by (auto simp: flushCycle_def split: option.splits sum.splits)

lemma group_step_result:
  assumes "group_step st e (type_of (event e)) = Inr st'"
  shows "\<exists>new. result st' = result st @ new \<and> (\<forall>g\<in>set new. is_phase g \<longrightarrow> marks e g)"
proof -
  consider (speech) "type_of (event e) = Some SPEECH_START"
    | (start) "type_of (event e) \<noteq> Some SPEECH_START" "type_of (event e) = Some RESPONSE_START"
    | (close) "type_of (event e) \<noteq> Some SPEECH_START" "type_of (event e) \<noteq> Some RESPONSE_START"
        "type_of (event e) = Some ''response.done'' \<or> type_of (event e) = Some ''response.cancelled''"
    | (call) "type_of (event e) \<noteq> Some SPEECH_START" "type_of (event e) \<noteq> Some RESPONSE_START"
        "\<not> (type_of (event e) = Some ''response.done'' \<or> type_of (event e) = Some ''response.cancelled'')"
        "type_of (event e) = Some FUNCTION_CALL"
    | (other) "type_of (event e) \<noteq> Some SPEECH_START" "type_of (event e) \<noteq> Some RESPONSE_START"
        "\<not> (type_of (event e) = Some ''response.done'' \<or> type_of (event e) = Some ''response.cancelled'')"
        "type_of (event e) \<noteq> Some FUNCTION_CALL"
    by blast
  then show ?thesis
  proof cases
    case speech
    with assms obtain s where s: "flushCycle st = Inr s"
      "st' = s\<lparr>result := result s @ [phaseMarker speech e, Standalone e]\<rparr>"
      by (auto simp: group_step_def split: sum.splits)
    from flushCycle_result [OF s(1)] obtain new where
      "result s = result st @ new" "\<forall>g\<in>set new. \<not> is_phase g"
      by blast
    with s(2) speech show ?thesis
      by (intro exI [of _ "new @ [phaseMarker speech e, Standalone e]"]) (simp add: marks_def)
  next
    case start
    with assms obtain s where s: "flushCycle st = Inr s"
      "result st' = result s @ [phaseMarker response e]"
      by (auto simp: group_step_def split: sum.splits)
    from flushCycle_result [OF s(1)] obtain new where
      "result s = result st @ new" "\<forall>g\<in>set new. \<not> is_phase g"
      by blast
    with s(2) start show ?thesis
      by (intro exI [of _ "new @ [phaseMarker response e]"]) (simp add: marks_def)
  next
    case close
    show ?thesis
    proof (cases "currentCycle st")
      case None
      with assms close have "result st' = result st @ [Standalone e]"
        by (auto simp: group_step_def)
      then show ?thesis
        by (intro exI [of _ "[Standalone e]"]) simp
    next
      case (Some c)
      with assms close obtain s where s: "flushCycle s = Inr st'" "result s = result st"
        by (auto simp: group_step_def)
      from flushCycle_result [OF s(1)] s(2) show ?thesis
        by auto
    qed
  next
    case call
    show ?thesis
    proof (cases "currentCycle st")
      case None
      with assms call have "result st' = result st @ [phaseMarker function_call e, Standalone e]"
        by (auto simp: group_step_def)
      with call show ?thesis
        by (intro exI [of _ "[phaseMarker function_call e, Standalone e]"]) (simp add: marks_def)
    next
      case (Some c)
      with assms call have "result st' = result st"
        by (auto simp: group_step_def)
      then show ?thesis by simp
    qed
  next
    case other
    show ?thesis
    proof (cases "currentCycle st")
      case None
      with assms other have "result st' = result st @ [Standalone e]"
        by (auto simp: group_step_def)
      then show ?thesis
        by (intro exI [of _ "[Standalone e]"]) simp
    next
      case (Some c)
      with assms other have "result st' = result st"
        by (auto simp: group_step_def)
      then show ?thesis by simp
    qed
  qed
qed

lemma flushCycle_phases:
  "flushCycle st = Inr st' \<Longrightarrow> phases_marked es (result st) \<Longrightarrow> phases_marked es (result st')"
  by (auto simp: phases_marked_def dest!: flushCycle_result)

lemma group_step_phases:
  assumes "group_step st e (type_of (event e)) = Inr st'" "phases_marked es (result st)"
  shows "phases_marked (es @ [e]) (result st')"
  using group_step_result [OF assms(1)] assms(2)
  by (auto simp: phases_marked_def)

lemma group_loop_phases:
  "group_loop st es = Inr st' \<Longrightarrow> phases_marked seen (result st) \<Longrightarrow>
     phases_marked (seen @ es) (result st')"
proof (induction es arbitrary: st seen)
  case Nil
  then show ?case by simp
next
  case (Cons e es)
  from Cons.prems(1) obtain st1 where
    s: "group_step st e (type_of (event e)) = Inr st1" "group_loop st1 es = Inr st'"
    by (auto simp: event_type_def split: if_splits sum.splits)
  from group_step_phases [OF s(1) Cons.prems(2)] have "phases_marked (seen @ [e]) (result st1)" .
  from Cons.IH [OF s(2) this] show ?case by simp
qed

lemma groupEvents_phases:
  assumes "groupEvents es = Inr gs"
  shows "phases_marked es gs"
proof -
  from assms obtain st st' where s: "group_loop init_state es = Inr st" "flushCycle st = Inr st'"
    "gs = result st'"
    by (auto simp: groupEvents_def split: sum.splits)
  have "phases_marked [] (result init_state)"
    by (simp add: phases_marked_def init_state_def)
  from group_loop_phases [OF s(1) this] have "phases_marked es (result st)" by simp
  from flushCycle_phases [OF s(2) this] s(3) show ?thesis by simp
qed

lemma group_step_speech_stop:
  "group_step st e (Some SPEECH_STOP) =
     Inr (case currentCycle st of
            Some c \<Rightarrow> st\<lparr>cycleEvents := cycleEvents st @ [e]\<rparr>
          | None \<Rightarrow> st\<lparr>result := result st @ [Standalone e]\<rparr>)"
  by (simp add: group_step_def SPEECH_STOP_def SPEECH_START_def RESPONSE_START_def
      FUNCTION_CALL_def split: option.splits)

text \<open>
  Claim C10. \<^verbatim>\<open>SPEECH_STOP\<close> is declared among the phase events, yet an event of that type
  gets no special handling: after any events (none with a \<^verbatim>\<open>null\<close> payload) it is
  appended to the pending buffer of the open cycle when a cycle is open, and is emitted
  as a standalone event otherwise, and nothing else changes. No phase marker is ever
  emitted for it: in the output of every run that contains it, each phase marker is the
  marker of another event, one of type speech-started, response-created or
  function-call-arguments-done.
\<close>

theorem speech_stopped_not_special:
  assumes nn: "\<forall>x\<in>set (pre @ [e]). event x \<noteq> JNull"
    and ty: "type_of (event e) = Some SPEECH_STOP"
  shows "SPEECH_STOP = ''input_audio_buffer.speech_stopped'' \<and>
         (\<exists>st. group_loop init_state pre = Inr st \<and>
            group_loop init_state (pre @ [e]) =
              Inr (case currentCycle st of
                     Some c \<Rightarrow> st\<lparr>cycleEvents := cycleEvents st @ [e]\<rparr>
                   | None \<Rightarrow> st\<lparr>result := result st @ [Standalone e]\<rparr>)) \<and>
         (\<forall>post gs. groupEvents (pre @ e # post) = Inr gs \<longrightarrow> phases_marked (pre @ post) gs)"
proof (intro conjI allI impI)
  show "SPEECH_STOP = ''input_audio_buffer.speech_stopped''"
    by (simp add: SPEECH_STOP_def)
next
  have ok0: "state_ok init_state"
    by (simp add: state_ok_def init_state_def)
  from nn have "\<forall>x\<in>set pre. event x \<noteq> JNull" and ne: "event e \<noteq> JNull"
    by simp_all
  from group_loop_ok [OF ok0 this(1)] obtain st where st: "group_loop init_state pre = Inr st"
    by blast
  with ty ne show "\<exists>st. group_loop init_state pre = Inr st \<and>
            group_loop init_state (pre @ [e]) =
              Inr (case currentCycle st of
                     Some c \<Rightarrow> st\<lparr>cycleEvents := cycleEvents st @ [e]\<rparr>
                   | None \<Rightarrow> st\<lparr>result := result st @ [Standalone e]\<rparr>)"
    by (simp add: group_loop_append event_type_def group_step_speech_stop)
next
  fix post gs
  assume "groupEvents (pre @ e # post) = Inr gs"
  from groupEvents_phases [OF this] have all: "phases_marked (pre @ e # post) gs" .
  from ty have "\<not> marks e g" for g
    by (simp add: marks_def SPEECH_STOP_def SPEECH_START_def RESPONSE_START_def FUNCTION_CALL_def)
  with all show "phases_marked (pre @ post) gs"
    by (auto simp: phases_marked_def)
qed

theorem speech_stopped_not_special_witness:
  "group_loop init_state (take 6 example_events @ [example_events ! 6]) =
     Inr \<lparr>result = [Standalone (example_events ! 0), phaseMarker response (example_events ! 1),
                    Cycle example_cycle, Standalone (example_events ! 6)],
          currentCycle = None, cycleEvents = []\<rparr> \<and>
   group_loop init_state (take 3 example_events @ [example_events ! 6]) =
     Inr \<lparr>result = [Standalone (example_events ! 0), phaseMarker response (example_events ! 1)],
          currentCycle = Some \<lparr>responseId = Some (JStr ''r1''), startEvent = example_events ! 1,
             endEvent = None, items = [], tokenUsage = None\<rparr>,
          cycleEvents = [example_events ! 1, example_events ! 2, example_events ! 6]\<rparr>"
proof -
  have ty: "type_of (event (example_events ! 6)) = Some SPEECH_STOP"
    by (simp add: eval_defs SPEECH_STOP_def)
  have nn6: "\<forall>x\<in>set (take 6 example_events @ [example_events ! 6]). event x \<noteq> JNull"
    by (simp add: example_events_def line_of_def)
  have nn3: "\<forall>x\<in>set (take 3 example_events @ [example_events ! 6]). event x \<noteq> JNull"
    by (simp add: example_events_def line_of_def)
  have st6: "group_loop init_state (take 6 example_events) =
     Inr \<lparr>result = [Standalone (example_events ! 0), phaseMarker response (example_events ! 1),
                    Cycle example_cycle],
          currentCycle = None, cycleEvents = []\<rparr>"
    by (simp add: group_eval_defs example_cycle_def)
  have st3: "group_loop init_state (take 3 example_events) =
     Inr \<lparr>result = [Standalone (example_events ! 0), phaseMarker response (example_events ! 1)],
          currentCycle = Some \<lparr>responseId = Some (JStr ''r1''), startEvent = example_events ! 1,
             endEvent = None, items = [], tokenUsage = None\<rparr>,
          cycleEvents = [example_events ! 1, example_events ! 2]\<rparr>"
    by (simp add: group_eval_defs)
  from speech_stopped_not_special [OF nn6 ty] st6 speech_stopped_not_special [OF nn3 ty] st3
  show ?thesis
    by auto
qed

section \<open>Properties of the audio codec\<close>

lemma int16_le_bytes: "int16_le (ucast s) (ucast (drop_bit 8 s)) = (s :: 16 word)"
  unfolding int16_le_def
  by (rule bit_word_eqI) (auto simp: bit_simps)

lemma int16_view_le_bytes: "int16_view (concat (map le_bytes samples)) = samples"
  by (induction samples) (simp_all add: le_bytes_def int16_le_bytes)

lemma length_le_bytes: "length (concat (map le_bytes samples)) = 2 * length samples"
  by (induction samples) (simp_all add: le_bytes_def)

lemma sample_range:
  "- 1 \<le> real_of_int (sint (s :: 16 word)) / 32768 \<and> real_of_int (sint s) / 32768 \<le> 1"
proof -
  have "- 32768 \<le> sint s" "sint s < 32768"
    using sint_ge [of s] sint_lt [of s] by simp_all
  then have "real_of_int (- 32768) \<le> real_of_int (sint s)"
    "real_of_int (sint s) < real_of_int 32768"
    by (simp_all only: of_int_le_iff of_int_less_iff)
  then show ?thesis by (simp del: of_int_sint)
qed

text \<open>
  Claim C9. For every base64 chunk that is valid (\<^verbatim>\<open>atob\<close> accepts it) and encodes
  16-bit signed samples, the low byte first, \<^verbatim>\<open>decodeAudioDelta\<close> returns one number for
  each sample, the sample divided by 32768, and each lies between -1 and 1. The chunk
  \<^verbatim>\<open>AEAAwA==\<close>, which encodes the samples 16384 and -16384, decodes to 0.5 and -0.5.
\<close>

theorem decodeAudioDelta_samples:
  assumes "atob base64 = Inr binaryString"
    and "map of_nat binaryString = concat (map le_bytes samples)"
  shows "decodeAudioDelta base64 = Inr (map (\<lambda>s. real_of_int (sint s) / 32768) samples) \<and>
         (\<forall>i<length samples. - 1 \<le> real_of_int (sint (samples ! i)) / 32768 \<and>
                               real_of_int (sint (samples ! i)) / 32768 \<le> 1)"
proof
  from assms show "decodeAudioDelta base64 = Inr (map (\<lambda>s. real_of_int (sint s) / 32768) samples)"
    by (simp add: decodeAudioDelta_def Int16Array_def int16_view_le_bytes length_le_bytes
        del: of_int_sint)
next
  show "\<forall>i<length samples. - 1 \<le> real_of_int (sint (samples ! i)) / 32768 \<and>
                               real_of_int (sint (samples ! i)) / 32768 \<le> 1"
    using sample_range by blast
qed

lemmas atob_defs = atob_def strip_padding_def ascii_whitespace_def b64_alphabet_def

lemma atob_example: "atob ''AEAAwA=='' = Inr [0x00, 0x40, 0x00, 0xC0]"
  by (simp add: atob_defs)

theorem decodeAudioDelta_samples_witness:
  "decodeAudioDelta ''AEAAwA=='' = Inr [0.5, - 0.5]"
proof -
  have bytes: "map of_nat [0x00, 0x40, 0x00, 0xC0] = concat (map le_bytes [16384, - 16384])"
    by (simp add: le_bytes_def drop_bit_eq_div)
  from decodeAudioDelta_samples [OF atob_example bytes] show ?thesis
    by simp
qed

lemma combine_concat: "combineAudioChunks chunks = concat chunks"
  by (cases chunks; cases "tl chunks") (auto simp: combineAudioChunks_def)

lemma extract_loop_chunks:
  assumes "\<forall>e\<in>set evts. event e \<noteq> JNull"
  shows "\<exists>console'. extract_loop (chunks, console) evts =
           Inr (chunks @ filter (\<lambda>d. d \<noteq> []) (decoded_chunks evts), console')"
  using assms
proof (induction evts arbitrary: chunks console)
  case Nil
  then show ?case by (simp add: decoded_chunks_def)
next
  case (Cons e evts)
  from Cons.prems have ne: "event e \<noteq> JNull" and rest: "\<forall>e\<in>set evts. event e \<noteq> JNull"
    by simp_all
  note IH = Cons.IH [OF rest]
  show ?case
  proof (cases "delta_string e")
    case None
    then have "\<exists>c. extract_loop (chunks, console) (e # evts) = extract_loop (chunks, c) evts"
      using ne by (auto simp: delta_string_def split: option.splits json.splits if_splits)
    then obtain c where
      skip: "extract_loop (chunks, console) (e # evts) = extract_loop (chunks, c) evts"
      by blast
    from None have "decoded_chunks (e # evts) = decoded_chunks evts"
      by (simp add: decoded_chunks_def decoded_chunk_def)
    with skip IH [of chunks c] show ?thesis by simp
  next
    case (Some s)
    then have d: "get (event e) ''delta'' = Some (JStr s)" "s \<noteq> []"
      by (auto simp: delta_string_def split: option.splits json.splits if_splits)
    show ?thesis
    proof (cases "decodeAudioDelta s")
      case (Inl err)
      with Some have "decoded_chunks (e # evts) = decoded_chunks evts"
        by (simp add: decoded_chunks_def decoded_chunk_def)
      with ne d Inl IH [of chunks "console @ [AudioWarning]"] show ?thesis by simp
    next
      case (Inr decoded)
      with Some have "decoded_chunks (e # evts) = decoded # decoded_chunks evts"
        by (simp add: decoded_chunks_def decoded_chunk_def)
      with ne d Inr IH [of "chunks @ [decoded]" console] IH [of chunks console] show ?thesis
        by simp
    qed
  qed
qed

text \<open>
  Claim C8, as amended. For every list of delta events (none with a \<^verbatim>\<open>null\<close> payload)
  \<^verbatim>\<open>extractAudioFromDeltaGroup\<close> raises no exception; it returns no data exactly when no
  chunk decodes successfully to at least one sample, and otherwise the concatenation, in
  input order, of the successfully decoded chunks among the events with a non-empty delta
  payload string. The claim as stated, no data exactly when zero chunks decode
  successfully, fails on a run whose only payload is a single space: the chunk decodes
  successfully, to zero samples, and the result is no data.
\<close>

theorem extract_no_data:
  assumes "\<forall>e\<in>set evts. event e \<noteq> JNull"
  shows "\<exists>console.
           extractAudioFromDeltaGroup evts =
             Inr (if filter (\<lambda>d. d \<noteq> []) (decoded_chunks evts) = [] then None
                  else Some (concat (decoded_chunks evts)), console)"
proof -
  from extract_loop_chunks [OF assms, of "[]" "[]"] obtain console where
    "extract_loop ([], []) evts = Inr (filter (\<lambda>d. d \<noteq> []) (decoded_chunks evts), console)"
    by auto
  moreover have "concat (filter (\<lambda>d. d \<noteq> []) cs) = concat cs" for cs :: "real list list"
    by (induction cs) auto
  ultimately show ?thesis
    by (auto simp: extractAudioFromDeltaGroup_def combine_concat)
qed

lemma atob_blank: "atob '' '' = Inr []"
  by (simp add: atob_defs)

lemma atob_bang: "atob ''!'' = Inl InvalidCharacterError"
  by (simp add: atob_defs)

lemma atob_zero: "atob ''AAA='' = Inr [0x00, 0x00]"
  by (simp add: atob_defs)

theorem extract_blank_counterexample:
  "extractAudioFromDeltaGroup blank_run = Inr (None, []) \<and>
   decodeAudioDelta '' '' = Inr [] \<and> decoded_chunks blank_run = [[]]"
  by (simp add: blank_run_def line_of_def extractAudioFromDeltaGroup_def get_def
      decodeAudioDelta_def atob_blank Int16Array_def decoded_chunks_def decoded_chunk_def
      delta_string_def)

theorem extract_no_data_witness:
  "extractAudioFromDeltaGroup audio_run = Inr (Some [0.5, - 0.5, 0], [AudioWarning]) \<and>
   extractAudioFromDeltaGroup blank_run = Inr (None, [])"
proof -
  have nn: "\<forall>e\<in>set audio_run. event e \<noteq> JNull"
    by (simp add: audio_run_def line_of_def)
  have nb: "\<forall>e\<in>set blank_run. event e \<noteq> JNull"
    by (simp add: blank_run_def line_of_def)
  have d1: "decodeAudioDelta ''AEAAwA=='' = Inr [0.5, - 0.5]"
    by (simp add: decodeAudioDelta_def atob_example Int16Array_def int16_le_def)
  have d2: "decodeAudioDelta ''!'' = Inl InvalidCharacterError"
    by (simp add: decodeAudioDelta_def atob_bang)
  have d4: "decodeAudioDelta ''AAA='' = Inr [0]"
    by (simp add: decodeAudioDelta_def atob_zero Int16Array_def int16_le_def)
  have d0: "decodeAudioDelta '' '' = Inr []"
    by (simp add: decodeAudioDelta_def atob_blank Int16Array_def)
  have cs: "decoded_chunks audio_run = [[0.5, - 0.5], [0]]"
    by (simp add: audio_run_def line_of_def decoded_chunks_def decoded_chunk_def delta_string_def
        get_def d1 d2 d4)
  have cb: "decoded_chunks blank_run = [[]]"
    by (simp add: blank_run_def line_of_def decoded_chunks_def decoded_chunk_def delta_string_def
        get_def d0)
  have con: "extract_loop ([], []) audio_run = Inr ([[0.5, - 0.5], [0]], [AudioWarning])"
    by (simp add: audio_run_def line_of_def get_def d1 d2 d4)
  have conb: "extract_loop ([], []) blank_run = Inr ([], [])"
    by (simp add: blank_run_def line_of_def get_def d0)
  from extract_no_data [OF nn] extract_no_data [OF nb] cs cb con conb show ?thesis
    by (auto simp: extractAudioFromDeltaGroup_def)
qed

section \<open>Properties of the host's JSON.parse\<close>

text \<open>The bit length of a number is the one exponent whose powers of two enclose it.\<close>

lemma bitlen_eqI: "2 ^ k \<le> n \<Longrightarrow> n < 2 ^ Suc k \<Longrightarrow> bitlen n = Suc k"
proof (induction k arbitrary: n)
  case 0
  then have "n = 1" by simp
  then show ?case by (simp add: bitlen.simps)
next
  case (Suc k)
  then have "2 ^ k \<le> n div 2" "n div 2 < 2 ^ Suc k" "n \<noteq> 0"
    by auto
  with Suc.IH [of "n div 2"] show ?case
    by (subst bitlen.simps) simp
qed

lemma bitlen_one: "bitlen (Suc 0) = Suc 0"
  using bitlen_eqI [of 0 "Suc 0"] by simp

lemma bitlen_bounds: "0 < n \<Longrightarrow> \<exists>k. bitlen n = Suc k \<and> 2 ^ k \<le> n \<and> n < 2 ^ Suc k"
proof (induction n rule: bitlen.induct)
  case (1 n)
  show ?case
  proof (cases "n div 2 = 0")
    case True
    with 1 have "n = 1" by auto
    then have "bitlen n = Suc 0 \<and> 2 ^ 0 \<le> n \<and> n < 2 ^ Suc 0"
      by (simp add: bitlen_one)
    then show ?thesis by blast
  next
    case False
    with 1 obtain k where k: "bitlen (n div 2) = Suc k" "2 ^ k \<le> n div 2" "n div 2 < 2 ^ Suc k"
      by auto
    then have "2 ^ Suc k \<le> n" "n < 2 ^ Suc (Suc k)" by auto
    moreover from 1 k have "bitlen n = Suc (Suc k)"
      by (subst bitlen.simps) simp
    ultimately show ?thesis by blast
  qed
qed

lemma to_double_exact:
  assumes "0 < n" "n < 2 ^ 53"
  shows "to_double False n 1 = JNum (of_nat n)"
proof -
  from bitlen_bounds [OF assms(1)] obtain b where
    b: "bitlen n = Suc b" "2 ^ b \<le> n" "n < 2 ^ Suc b"
    by blast
  have b52: "b \<le> 52"
  proof (rule ccontr)
    assume "\<not> b \<le> 52"
    then have "(2::nat) ^ 53 \<le> 2 ^ b" by (intro power_increasing) simp_all
    with b assms show False by simp
  qed
  have "(of_nat (2 ^ b) :: rat) \<le> of_nat n"
    using b(2) by (simp only: of_nat_le_iff)
  then have le: "(2 ^ b :: rat) \<le> of_nat n" by simp
  have e: "binary_exponent n (Suc 0) = int b"
    using b(1) le by (simp add: binary_exponent_def bitlen_one scale2_def Let_def)
  define j where "j = 52 - b"
  have k: "max (int b) (- 1022) - 52 = - int j"
    using b52 by (simp add: j_def)
  have big: "\<not> (2 ^ 1024 :: rat) \<le> of_nat n"
  proof -
    from assms have "(of_nat n :: rat) < of_nat (2 ^ 53)" by (simp only: of_nat_less_iff)
    also have "\<dots> < 2 ^ 1024" by simp
    finally show ?thesis by simp
  qed
  have r: "round_half_even m (Suc 0) = m" for m
    by (simp add: round_half_even_def)
  from assms have bign: "\<not> 2 ^ 1024 \<le> n"
    by simp
  have v: "of_nat n * 2 ^ j * scale2 (- int j) = (of_nat n :: rat)"
    by (simp add: scale2_def)
  have "to_double False n (Suc 0) = JNum (of_nat n)"
  proof (cases "j = 0")
    case True
    with assms(1) big bign show ?thesis
      unfolding to_double_def Let_def e k by (simp add: r scale2_def)
  next
    case False
    with assms(1) big bign show ?thesis
      unfolding to_double_def Let_def e k by (simp add: r v)
  qed
  then show ?thesis by simp
qed

text \<open>
  The exponent is the floor of the binary logarithm, the rounding is to a nearest
  integer, and the double of a literal is within half a unit of its last place.
\<close>

lemma scale2_powi: "scale2 k = 2 powi k"
  by (simp add: scale2_def power_int_def field_simps)

lemma scale2_pos: "0 < scale2 k"
  by (simp add: scale2_powi)

lemma scale2_add: "scale2 (a + b) = scale2 a * scale2 b"
  by (simp add: scale2_powi power_int_add)

lemma scale2_nat: "scale2 (int n) = 2 ^ n"
  by (simp add: scale2_def)

lemma binary_exponent_bounds:
  assumes "0 < p" "0 < q"
  shows "scale2 (binary_exponent p q) * of_nat q \<le> of_nat p \<and>
         of_nat p < scale2 (binary_exponent p q + 1) * of_nat q"
proof -
  from bitlen_bounds [OF assms(1)] obtain a where
    a: "bitlen p = Suc a" "2 ^ a \<le> p" "p < 2 ^ Suc a" by blast
  from bitlen_bounds [OF assms(2)] obtain b where
    b: "bitlen q = Suc b" "2 ^ b \<le> q" "q < 2 ^ Suc b" by blast
  define d where "d = int a - int b"
  have d: "int (bitlen p) - int (bitlen q) = d"
    by (simp add: a b d_def)
  have pa: "scale2 (int a) \<le> of_nat p" "(of_nat p :: rat) < scale2 (int a + 1)"
  proof -
    from a(2) have "(of_nat (2 ^ a) :: rat) \<le> of_nat p" by (simp only: of_nat_le_iff)
    then show "scale2 (int a) \<le> of_nat p" by (simp add: scale2_nat)
    from a(3) have "(of_nat p :: rat) < of_nat (2 ^ Suc a)" by (simp only: of_nat_less_iff)
    moreover have "scale2 (int a + 1) = 2 ^ Suc a"
      using scale2_nat [of "Suc a"] by (simp add: add.commute)
    ultimately show "(of_nat p :: rat) < scale2 (int a + 1)" by simp
  qed
  have qb: "scale2 (int b) \<le> of_nat q" "(of_nat q :: rat) < scale2 (int b + 1)"
  proof -
    from b(2) have "(of_nat (2 ^ b) :: rat) \<le> of_nat q" by (simp only: of_nat_le_iff)
    then show "scale2 (int b) \<le> of_nat q" by (simp add: scale2_nat)
    from b(3) have "(of_nat q :: rat) < of_nat (2 ^ Suc b)" by (simp only: of_nat_less_iff)
    moreover have "scale2 (int b + 1) = 2 ^ Suc b"
      using scale2_nat [of "Suc b"] by (simp add: add.commute)
    ultimately show "(of_nat q :: rat) < scale2 (int b + 1)" by simp
  qed
  show ?thesis
  proof (cases "scale2 d * of_nat q \<le> of_nat p")
    case True
    then have e: "binary_exponent p q = d"
      by (simp add: binary_exponent_def d Let_def)
    have "(of_nat p :: rat) < scale2 (int a + 1)" by (rule pa)
    also have "\<dots> = scale2 (d + 1) * scale2 (int b)"
      by (simp add: scale2_add [symmetric] d_def)
    also have "\<dots> \<le> scale2 (d + 1) * of_nat q"
      using qb(1) scale2_pos [of "d + 1"] by (simp add: mult_left_mono)
    finally show ?thesis using True e by simp
  next
    case False
    then have e: "binary_exponent p q = d - 1"
      by (simp add: binary_exponent_def d Let_def)
    have "scale2 (d - 1) * of_nat q \<le> scale2 (d - 1) * scale2 (int b + 1)"
      using qb(2) scale2_pos [of "d - 1"] by (simp add: mult_left_mono)
    also have "\<dots> = scale2 (int a)"
      by (simp add: scale2_add [symmetric] d_def)
    also have "\<dots> \<le> of_nat p" by (rule pa)
    finally show ?thesis using False e by simp
  qed
qed


lemma round_half_even_nearest:
  assumes "0 < q"
  shows "\<bar>of_nat (round_half_even p q) - (of_nat p / of_nat q :: rat)\<bar> \<le> 1 / 2"
proof -
  define f where "f = p div q"
  define r where "r = p mod q"
  define x where "x = (of_nat r / of_nat q :: rat)"
  have p: "p = f * q + r"
    by (simp add: f_def r_def)
  from assms have q0: "(of_nat q :: rat) > 0" by simp
  have pq: "(of_nat p / of_nat q :: rat) = of_nat f + x"
    using q0 by (simp add: p x_def field_simps)
  have lt: "x < 1 / 2" if "2 * r < q"
  proof -
    from that have "(of_nat (2 * r) :: rat) < of_nat q" by (simp only: of_nat_less_iff)
    with q0 show ?thesis by (simp add: x_def field_simps)
  qed
  have gt: "x > 1 / 2" if "q < 2 * r"
  proof -
    from that have "(of_nat q :: rat) < of_nat (2 * r)" by (simp only: of_nat_less_iff)
    with q0 show ?thesis by (simp add: x_def field_simps)
  qed
  have eq: "x = 1 / 2" if "\<not> 2 * r < q" "\<not> q < 2 * r"
  proof -
    from that have "q = 2 * r" by simp
    then have "(of_nat q :: rat) = 2 * of_nat r" by simp
    with q0 show ?thesis by (simp add: x_def field_simps)
  qed
  have "r < q"
    using assms by (simp add: r_def)
  then have "(of_nat r :: rat) < of_nat q" by (simp only: of_nat_less_iff)
  with q0 have x1: "x < 1" "0 \<le> x"
    by (simp_all add: x_def field_simps)
  consider "2 * r < q" | "q < 2 * r" | "\<not> 2 * r < q" "\<not> q < 2 * r" by blast
  then show ?thesis
  proof cases
    case 1
    then have "round_half_even p q = f"
      by (simp add: round_half_even_def f_def r_def Let_def)
    with lt [OF 1] x1 show ?thesis unfolding pq by simp
  next
    case 2
    then have "round_half_even p q = f + 1"
      by (simp add: round_half_even_def f_def r_def Let_def)
    with gt [OF 2] x1 show ?thesis unfolding pq by (simp add: abs_if)
  next
    case 3
    then have "round_half_even p q = f \<or> round_half_even p q = f + 1"
      by (simp add: round_half_even_def f_def r_def Let_def)
    with eq [OF 3] show ?thesis unfolding pq by auto
  qed
qed


lemma to_double_nearest:
  assumes "0 < q" "to_double False p q = JNum v"
  shows "\<bar>v - of_nat p / of_nat q\<bar> \<le> scale2 (max (binary_exponent p q) (- 1022) - 52) / 2"
proof (cases "p = 0")
  case True
  with assms show ?thesis
    by (simp add: to_double_def scale2_pos less_imp_le)
next
  case False
  define k where "k = max (binary_exponent p q) (- 1022) - 52"
  define n where "n = (if 0 \<le> k then round_half_even p (q * 2 ^ nat k)
                       else round_half_even (p * 2 ^ nat (- k)) q)"
  from assms(1) have q0: "(of_nat q :: rat) > 0" by simp
  have near: "\<bar>of_nat n * scale2 k - (of_nat p / of_nat q :: rat)\<bar> \<le> scale2 k / 2"
  proof (cases "0 \<le> k")
    case True
    then have s: "scale2 k = 2 ^ nat k" by (simp add: scale2_def)
    from assms(1) have "0 < q * 2 ^ nat k" by simp
    from round_half_even_nearest [OF this, of p] True
    have "\<bar>of_nat n - (of_nat p / (of_nat q * 2 ^ nat k) :: rat)\<bar> \<le> 1 / 2"
      by (simp add: n_def)
    then have "\<bar>of_nat n - (of_nat p / (of_nat q * 2 ^ nat k) :: rat)\<bar> * 2 ^ nat k \<le> 1 / 2 * 2 ^ nat k"
      by (intro mult_right_mono) simp_all
    also have "\<bar>of_nat n - (of_nat p / (of_nat q * 2 ^ nat k) :: rat)\<bar> * 2 ^ nat k =
        \<bar>(of_nat n - (of_nat p / (of_nat q * 2 ^ nat k))) * 2 ^ nat k\<bar>"
      by (simp add: abs_mult)
    also have "(of_nat n - (of_nat p / (of_nat q * 2 ^ nat k) :: rat)) * 2 ^ nat k =
        of_nat n * 2 ^ nat k - of_nat p / of_nat q"
      using q0 by (simp add: field_simps)
    finally show ?thesis by (simp add: s)
  next
    case False
    then have s: "scale2 k = 1 / 2 ^ nat (- k)" by (simp add: scale2_def)
    from round_half_even_nearest [OF assms(1), of "p * 2 ^ nat (- k)"] False
    have "\<bar>of_nat n - (of_nat p * 2 ^ nat (- k) / of_nat q :: rat)\<bar> \<le> 1 / 2"
      by (simp add: n_def)
    then have "\<bar>of_nat n - (of_nat p * 2 ^ nat (- k) / of_nat q :: rat)\<bar> * (1 / 2 ^ nat (- k))
        \<le> 1 / 2 * (1 / 2 ^ nat (- k))"
      by (intro mult_right_mono) simp_all
    also have "\<bar>of_nat n - (of_nat p * 2 ^ nat (- k) / of_nat q :: rat)\<bar> * (1 / 2 ^ nat (- k)) =
        \<bar>(of_nat n - (of_nat p * 2 ^ nat (- k) / of_nat q)) * (1 / 2 ^ nat (- k))\<bar>"
      by (simp add: abs_mult)
    also have "(of_nat n - (of_nat p * 2 ^ nat (- k) / of_nat q :: rat)) * (1 / 2 ^ nat (- k)) =
        of_nat n * (1 / 2 ^ nat (- k)) - of_nat p / of_nat q"
      using q0 by (simp add: field_simps)
    finally show ?thesis by (simp add: s)
  qed
  from assms(2) False have "v = of_nat n * scale2 k"
    unfolding to_double_def Let_def k_def [symmetric] n_def [symmetric]
    by (simp split: if_splits)
  with near show ?thesis
    by (simp add: k_def)
qed

text \<open>
  The tokeniser never stops for want of steps: a string and a number consume at least one
  character, so every number of steps that is at least the length of the text gives the
  same tokens.
\<close>

lemma lex_string_shorter: "lex_string acc s = Some (str, r) \<Longrightarrow> length r < length s"
proof (induction acc s rule: lex_string.induct)
  case (1 acc)
  then show ?case by simp
next
  case (2 acc c cs)
  show ?case
  proof (cases "c = CHR 0x22")
    case True
    with "2.prems" show ?thesis by simp
  next
    case quote: False
    show ?thesis
    proof (cases "c = CHR 0x5C")
      case False
      with quote "2.prems" "2.IH"(3) show ?thesis
        by (fastforce split: if_splits)
    next
      case True
      with quote "2.prems" obtain e r' where cs: "cs = e # r'"
        by (cases cs) auto
      show ?thesis
      proof (cases "e = CHR ''u''")
        case True
        with quote \<open>c = CHR 0x5C\<close> cs "2.prems" obtain a b c' d where
          h: "those (map hex_value (take 4 r')) = Some [a, b, c', d]"
          and l: "lex_string (append_text acc (code_unit (((a * 16 + b) * 16 + c') * 16 + d))) (drop 4 r') = Some (str, r)"
          by (auto split: option.splits list.splits)
        from "2.IH"(1) [OF quote \<open>c = CHR 0x5C\<close> cs True h refl refl refl refl refl l]
        have "length r < length (drop 4 r')" .
        with cs show ?thesis by simp
      next
        case False
        with quote \<open>c = CHR 0x5C\<close> cs "2.prems" obtain x where
          x: "escape_char e = Some x" and l: "lex_string (append_text acc (Narrow [x])) r' = Some (str, r)"
          by (auto split: option.splits)
        from "2.IH"(2) [OF quote \<open>c = CHR 0x5C\<close> cs False x l] cs show ?thesis
          by simp
      qed
    qed
  qed
qed

lemma dropWhile_shorter: "length (dropWhile P xs) \<le> length xs"
  by (induction xs) auto

lemma number_sign_shorter: "number_sign s = (neg, r) \<Longrightarrow> length r \<le> length s"
  by (cases s) (auto simp: number_sign_def split: if_splits)

lemma number_fraction_shorter: "number_fraction s = Some (fp, r) \<Longrightarrow> length r \<le> length s"
  using dropWhile_shorter [of digit "tl s"]
  by (cases s) (auto simp: number_fraction_def split: if_splits)

lemma number_exponent_shorter:
  assumes "number_exponent s = Some (eneg, ep, r)"
  shows "length r \<le> length s"
proof (cases s)
  case Nil
  with assms show ?thesis by (simp add: number_exponent_def)
next
  case (Cons c cs)
  show ?thesis
  proof (cases "c = CHR ''e'' \<or> c = CHR ''E''")
    case False
    with assms Cons show ?thesis by (auto simp: number_exponent_def)
  next
    case True
    define r1 where "r1 = snd (case cs of
        d # r' \<Rightarrow> if d = CHR ''-'' then (True, r') else if d = CHR ''+'' then (False, r') else (False, cs)
      | [] \<Rightarrow> (False, cs))"
    have "length r1 \<le> length cs"
      by (cases cs) (auto simp: r1_def)
    moreover from assms Cons True have "r = dropWhile digit r1"
      by (auto simp: number_exponent_def r1_def Let_def split: prod.splits if_splits)
    ultimately show ?thesis
      using dropWhile_shorter [of digit r1] Cons by simp
  qed
qed

lemma lex_number_shorter:
  assumes "lex_number s = Some (v, r)"
  shows "length r < length s"
proof -
  obtain neg s1 where sg: "number_sign s = (neg, s1)"
    by (cases "number_sign s")
  from assms sg have ip: "takeWhile digit s1 \<noteq> []"
    by (auto simp: lex_number_def Let_def split: if_splits)
  from assms sg ip obtain fp s3 eneg ep where
    f: "number_fraction (dropWhile digit s1) = Some (fp, s3)" and
    e: "number_exponent s3 = Some (eneg, ep, r)"
    by (auto simp: lex_number_def Let_def split: if_splits option.splits)
  have "length (takeWhile digit s1) + length (dropWhile digit s1) = length s1"
    by (metis length_append takeWhile_dropWhile_id)
  with ip have "length (dropWhile digit s1) < length s1"
    by (cases "takeWhile digit s1") auto
  with number_sign_shorter [OF sg] number_fraction_shorter [OF f] number_exponent_shorter [OF e]
  show ?thesis by simp
qed

lemma lex_enough: "length s \<le> n \<Longrightarrow> length s \<le> m \<Longrightarrow> lex n s = lex m s"
proof (induction n arbitrary: s m)
  case 0
  then show ?case by simp
next
  case (Suc n)
  show ?case
  proof (cases s)
    case Nil
    then show ?thesis by simp
  next
    case (Cons c cs)
    with Suc.prems obtain m' where m: "m = Suc m'" "length cs \<le> m'" and n: "length cs \<le> n"
      by (cases m) auto
    have rec: "lex n r = lex m' r" if "length r \<le> length cs" for r
      using Suc.IH [of r m'] that n m(2) by simp
    have str: "lex n r = lex m' r" if "lex_string (Narrow []) cs = Some (x, r)" for x r
      using lex_string_shorter [OF that] by (intro rec) simp
    have num: "lex n r = lex m' r" if "lex_number (c # cs) = Some (x, r)" for x r
      using lex_number_shorter [OF that] by (intro rec) simp
    show ?thesis
      unfolding Cons m(1)
      by (simp add: rec str num split: option.splits prod.splits)
  qed
qed

section \<open>Properties of the line decoder and the session segmenter\<close>

lemmas json_defs = JSON_parse_def tokens_def json_whitespace_def digit_def lex_number_def
  number_sign_def number_fraction_def number_exponent_def
  digits_value_def digit_value_def escape_char_def hex_value_def
  append_text_def code_unit_def code_units_def string_value_def object_value_def

lemmas line_defs = parseLogLine_def trim_def js_space_def extract_prefixes_def
  match_date_def match_timestamp_def match_uuid_def match_source_def literal_def literal_ci_def digits_def
  clock_char_def tag_char_def upper_def

text \<open>
  Examples of the host's parser: an escape of a code unit above 255 gives a wide string,
  one below a narrow string; a literal too small for a double is zero, one too large is
  infinity, and the zero of a negative literal is negative.
\<close>

lemma parse_wide: "JSON_parse ([CHR 0x22, CHR 0x5C] @ ''u0161'' @ [CHR 0x22]) = Some (JWide [353])"
  by (simp add: json_defs)

lemma parse_narrow: "JSON_parse ([CHR 0x22, CHR 0x5C] @ ''u0041'' @ [CHR 0x22]) = Some (JStr ''A'')"
  by (simp add: json_defs char_of_def bit_iff_odd)

lemma parse_neg_zero: "JSON_parse ''-0'' = Some JNegZero"
  by (simp add: json_defs to_double_def)

lemma bitlen_big: "bitlen (10 ^ 400) = 1329"
proof -
  have "bitlen (10 ^ 400) = Suc 1328"
    by (rule bitlen_eqI) simp_all
  then show ?thesis by simp
qed

lemma to_double_underflow: "to_double False 1 (10 ^ 400) = JNum 0"
proof -
  have "binary_exponent 1 (10 ^ 400) = - 1329"
    unfolding binary_exponent_def bitlen_big One_nat_def bitlen_one Let_def scale2_def
    by simp
  then show ?thesis
    unfolding to_double_def Let_def
    by (simp add: round_half_even_def Let_def)
qed

lemma to_double_overflow: "to_double False (10 ^ 400) 1 = JInf False"
proof -
  have "binary_exponent (10 ^ 400) 1 = 1328"
    unfolding binary_exponent_def bitlen_big One_nat_def bitlen_one Let_def scale2_def
    by simp
  then show ?thesis
    unfolding to_double_def Let_def
    by (simp add: round_half_even_def Let_def scale2_def)
qed

lemma parse_underflow: "JSON_parse ''1e-400'' = Some (JNum 0)"
proof -
  have "lex_number ''1e-400'' = Some (to_double False 1 (10 ^ 400), [])"
    by (simp add: json_defs)
  then have "lex_number ''1e-400'' = Some (JNum 0, [])"
    by (simp only: to_double_underflow)
  then show ?thesis
    by (simp add: JSON_parse_def tokens_def json_whitespace_def digit_def)
qed

lemma parse_overflow: "JSON_parse ''1e400'' = Some (JInf False)"
proof -
  have "lex_number ''1e400'' = Some (to_double False (1 * 10 ^ 400) (10 ^ 0), [])"
    by (simp add: json_defs)
  then have "lex_number ''1e400'' = Some (JInf False, [])"
    by (simp only: to_double_overflow mult_1 power_0)
  then show ?thesis
    by (simp add: JSON_parse_def tokens_def json_whitespace_def digit_def)
qed


lemma dropWhile_stop: "xs = [] \<or> \<not> P (hd xs) \<Longrightarrow> dropWhile P xs = xs"
  by (cases xs) auto

lemma takeWhile_stop: "xs = [] \<or> \<not> P (hd xs) \<Longrightarrow> takeWhile P xs = []"
  by (cases xs) auto

lemma dropWhile_run:
  "list_all P w \<Longrightarrow> xs = [] \<or> \<not> P (hd xs) \<Longrightarrow> dropWhile P (w @ xs) = xs"
  by (induction w) (simp_all add: dropWhile_stop)

lemma takeWhile_run:
  "list_all P w \<Longrightarrow> xs = [] \<or> \<not> P (hd xs) \<Longrightarrow> takeWhile P (w @ xs) = w"
  by (induction w) (simp_all add: takeWhile_stop)

lemma dropWhile_space_append:
  "list_all js_space w \<Longrightarrow> after = [] \<or> \<not> js_space (hd after) \<Longrightarrow>
     dropWhile js_space (w @ after) = after"
  by (rule dropWhile_run)

lemma trim_padded:
  assumes "list_all js_space w0" "list_all js_space w4"
    and "body \<noteq> []" "\<not> js_space (hd body)" "\<not> js_space (last body)"
  shows "trim (w0 @ body @ w4) = body"
proof -
  have front: "dropWhile js_space (w0 @ body @ w4) = body @ w4"
    using assms by (intro dropWhile_space_append) auto
  have "dropWhile js_space (rev w4 @ rev body) = rev body"
    using assms by (intro dropWhile_space_append) (auto simp: list_all_iff hd_rev)
  with front show ?thesis
    by (simp add: trim_def)
qed

lemma match_date_ok:
  assumes "list_all2 template_char ''dddd-dd-ddT'' date"
  shows "match_date (date @ r) = Some r"
proof -
  from assms obtain c0 c1 c2 c3 c5 c6 c8 c9 where
    date: "date = [c0, c1, c2, c3, CHR ''-'', c5, c6, CHR ''-'', c8, c9, CHR ''T'']"
    and d: "digit c0" "digit c1" "digit c2" "digit c3" "digit c5" "digit c6" "digit c8" "digit c9"
    by (auto simp: list_all2_Cons1 template_char_def)
  show ?thesis
    unfolding date using d
    by (simp add: match_date_def digits_def literal_def)
qed

lemma match_date_none: "s \<noteq> [] \<Longrightarrow> \<not> digit (hd s) \<Longrightarrow> match_date s = None"
  by (cases s) (auto simp: match_date_def digits_def)

lemma match_timestamp_none: "s \<noteq> [] \<Longrightarrow> \<not> digit (hd s) \<Longrightarrow> match_timestamp s = None"
  by (simp add: match_timestamp_def match_date_none)

lemma grammar_timestamp_parts:
  assumes "grammar_timestamp t"
  obtains date clock z where "t = date @ clock @ z"
    "list_all2 template_char ''dddd-dd-ddT'' date"
    "clock \<noteq> []" "list_all clock_char clock" "z = [] \<or> z = ''Z''"
proof -
  define z where "z = (if t \<noteq> [] \<and> last t = CHR ''Z'' then ''Z'' else [])"
  define b where "b = (if t \<noteq> [] \<and> last t = CHR ''Z'' then butlast t else t)"
  have t: "t = b @ z"
    by (auto simp: b_def z_def) (metis append_butlast_last_id)
  from assms have head: "list_all2 template_char ''dddd-dd-ddTdd:dd:dd'' (take 19 b)"
    and frac: "drop 19 b = [] \<or> list_all2 template_char ''.ddd'' (drop 19 b)"
    by (simp_all add: grammar_timestamp_def b_def Let_def)
  from head obtain c0 c1 c2 c3 c5 c6 c8 c9 h1 h2 m1 m2 s1 s2 where
    tk: "take 19 b = [c0, c1, c2, c3, CHR ''-'', c5, c6, CHR ''-'', c8, c9, CHR ''T'',
                      h1, h2, CHR '':'', m1, m2, CHR '':'', s1, s2]"
    and d: "digit c0" "digit c1" "digit c2" "digit c3" "digit c5" "digit c6" "digit c8" "digit c9"
      "digit h1" "digit h2" "digit m1" "digit m2" "digit s1" "digit s2"
    by (auto simp: list_all2_Cons1 template_char_def)
  let ?date = "[c0, c1, c2, c3, CHR ''-'', c5, c6, CHR ''-'', c8, c9, CHR ''T'']"
  let ?clock = "[h1, h2, CHR '':'', m1, m2, CHR '':'', s1, s2] @ drop 19 b"
  have "b = take 19 b @ drop 19 b" by simp
  with tk have b: "b = ?date @ ?clock" by simp
  from frac have "list_all clock_char (drop 19 b)"
    by (auto simp: list_all2_Cons1 template_char_def clock_char_def)
  with d have "list_all clock_char ?clock"
    by (simp add: clock_char_def)
  moreover from d have "list_all2 template_char ''dddd-dd-ddT'' ?date"
    by (simp add: template_char_def)
  moreover have "t = ?date @ ?clock @ z"
    using t b by simp
  moreover have "z = [] \<or> z = ''Z''"
    by (simp add: z_def)
  ultimately show ?thesis
    using that [of ?date ?clock z] by blast
qed

lemma match_timestamp_ok:
  assumes "grammar_timestamp t"
    and "after \<noteq> []" "\<not> clock_char (hd after)" "hd after \<noteq> CHR ''Z''"
  shows "match_timestamp (t @ after) = Some (t, dropWhile js_space after)"
proof -
  from assms(1) obtain date clock z where p: "t = date @ clock @ z"
    "list_all2 template_char ''dddd-dd-ddT'' date"
    "clock \<noteq> []" "list_all clock_char clock" "z = [] \<or> z = ''Z''"
    by (rule grammar_timestamp_parts)
  have date: "match_date (date @ clock @ z @ after) = Some (clock @ z @ after)"
    using match_date_ok [OF p(2), of "clock @ z @ after"] by simp
  have stop: "z @ after = [] \<or> \<not> clock_char (hd (z @ after))"
    using p(5) assms by (auto simp: clock_char_def digit_def)
  have tw: "takeWhile clock_char (clock @ z @ after) = clock"
    using p(4) stop by (rule takeWhile_run)
  have dw: "dropWhile clock_char (clock @ z @ after) = z @ after"
    using p(4) stop by (rule dropWhile_run)
  have zed: "(case literal ''Z'' (z @ after) of Some r' \<Rightarrow> r' | None \<Rightarrow> z @ after) = after"
    using p(5) assms by (cases after) (auto simp: literal_def)
  have "match_timestamp (date @ clock @ z @ after) =
      Some (take (length (date @ clock @ z @ after) - length after) (date @ clock @ z @ after),
            dropWhile js_space after)"
    using p(3) by (simp add: match_timestamp_def Let_def date tw dw zed del: length_append take_append)
  moreover have "take (length (date @ clock @ z @ after) - length after) (date @ clock @ z @ after) =
      date @ clock @ z"
    by simp
  ultimately show ?thesis
    by (simp only: p(1) append_assoc)
qed

lemma match_uuid_ok:
  assumes "grammar_tag g"
  shows "match_uuid (''['' @ g @ '']'' @ after) = Some (g, dropWhile js_space after)"
proof -
  have eq: "tag_char = (\<lambda>c. c \<in> set ''0123456789abcdefABCDEF-'')"
    by (rule ext) (auto simp: tag_char_def)
  from assms have g: "g \<noteq> []" "list_all tag_char g"
    unfolding grammar_tag_def eq by simp_all
  have stop: "'']'' @ after = [] \<or> \<not> tag_char (hd ('']'' @ after))"
    by (simp add: tag_char_def)
  have tw: "takeWhile tag_char (g @ '']'' @ after) = g"
    using g(2) stop by (rule takeWhile_run)
  have dw: "dropWhile tag_char (g @ '']'' @ after) = '']'' @ after"
    using g(2) stop by (rule dropWhile_run)
  have "literal ''['' (''['' @ g @ '']'' @ after) = Some (g @ '']'' @ after)"
    by (simp add: literal_def)
  moreover have "literal '']'' ('']'' @ after) = Some after"
    by (simp add: literal_def)
  ultimately show ?thesis
    using g(1) by (simp add: match_uuid_def tw dw del: append.simps)
qed

lemma match_uuid_none:
  "s = [] \<or> hd s \<noteq> CHR ''['' \<or> tl s = [] \<or> \<not> tag_char (hd (tl s)) \<Longrightarrow> match_uuid s = None"
  by (cases s; cases "tl s") (auto simp: match_uuid_def literal_def)

lemma match_source_ok:
  assumes "grammar_source s"
  shows "match_source (''['' @ s @ '']'' @ after) = Some (s, dropWhile js_space after)"
proof -
  from assms consider (openai) "map upper s = ''OPENAI''" | (user) "map upper s = ''USER''"
    by (auto simp: grammar_source_def)
  then show ?thesis
  proof cases
    case openai
    then obtain a b c d e f where s: "s = [a, b, c, d, e, f]"
      by (auto simp: map_eq_Cons_conv)
    with openai show ?thesis
      by (simp add: match_source_def literal_def literal_ci_def)
  next
    case user
    then obtain a b c d where s: "s = [a, b, c, d]" "upper a = CHR ''U''" "upper b = CHR ''S''"
      "upper c = CHR ''E''" "upper d = CHR ''R''"
      by (auto simp: map_eq_Cons_conv)
    then show ?thesis
      by (simp add: match_source_def literal_def literal_ci_def)
  qed
qed

lemma match_source_none: "s = [] \<or> hd s \<noteq> CHR ''['' \<Longrightarrow> match_source s = None"
  by (cases s) (auto simp: match_source_def literal_def)

lemma space_stops: "js_space c \<Longrightarrow> \<not> clock_char c \<and> c \<noteq> CHR ''Z''"
  by (auto simp: js_space_def clock_char_def digit_def)

lemma bracket_stops:
  "c = CHR ''['' \<or> c = CHR ''{'' \<Longrightarrow>
     \<not> js_space c \<and> \<not> clock_char c \<and> c \<noteq> CHR ''Z'' \<and> \<not> digit c"
  by (auto simp: js_space_def clock_char_def digit_def)

lemma digit_not_space: "digit c \<Longrightarrow> \<not> js_space c"
  by (auto simp: js_space_def digit_def)

lemma upper_tag_char: "tag_char c \<Longrightarrow> upper c \<noteq> CHR ''O'' \<and> upper c \<noteq> CHR ''U''"
  unfolding tag_char_def
  by (simp only: set_simps insert_iff empty_iff, elim disjE) (simp_all add: upper_def)

lemma grammar_source_head: "grammar_source s \<Longrightarrow> s \<noteq> [] \<and> \<not> tag_char (hd s)"
  using upper_tag_char by (auto simp: grammar_source_def map_eq_Cons_conv)

lemma grammar_timestamp_head:
  assumes "grammar_timestamp t"
  shows "t \<noteq> [] \<and> \<not> js_space (hd t)"
proof -
  from assms obtain date clock z where t: "t = date @ clock @ z"
    and "list_all2 template_char ''dddd-dd-ddT'' date"
    by (rule grammar_timestamp_parts)
  then obtain c r where "date = c # r" "digit c"
    by (auto simp: list_all2_Cons1 template_char_def)
  with t digit_not_space [of c] show ?thesis
    by simp
qed

lemma after_space:
  assumes "list_all js_space w" "b \<noteq> []" "hd b = CHR ''['' \<or> hd b = CHR ''{''"
  shows "dropWhile js_space (w @ b) = b"
    and "w @ b \<noteq> []" and "\<not> clock_char (hd (w @ b))" and "hd (w @ b) \<noteq> CHR ''Z''"
proof -
  from assms bracket_stops [of "hd b"] show "dropWhile js_space (w @ b) = b"
    by (intro dropWhile_run) auto
  from assms show "w @ b \<noteq> []" by simp
  show "\<not> clock_char (hd (w @ b))"
  proof (cases w)
    case Nil
    with assms bracket_stops [of "hd b"] show ?thesis by simp
  next
    case (Cons c r)
    with assms space_stops [of c] show ?thesis by simp
  qed
  show "hd (w @ b) \<noteq> CHR ''Z''"
  proof (cases w)
    case Nil
    with assms bracket_stops [of "hd b"] show ?thesis by simp
  next
    case (Cons c r)
    with assms space_stops [of c] show ?thesis by simp
  qed
qed

text \<open>
  Claim C6. For every line of the grammar (white space; then, each optional and each
  followed by white space, a timestamp, a session tag in brackets, a source in brackets;
  then a payload that begins with an opening brace, and white space) \<^verbatim>\<open>parseLogLine\<close>
  extracts exactly the prefix tokens that are present, the source in upper case, and
  leaves the absent ones unset; a prefix that is absent consumes no input: what is handed
  to \<^verbatim>\<open>JSON.parse\<close> is the payload itself, and its value is the event of the decoded line.
  The witness decodes the line of the spec's example.
\<close>

theorem parseLogLine_grammar:
  assumes ws: "list_all js_space w0" "list_all js_space w4"
    and toks: "token_ok grammar_timestamp t" "token_ok grammar_tag g" "token_ok grammar_source s"
    and payload: "p \<noteq> []" "hd p = CHR ''{''" "\<not> js_space (last p)"
  shows "parseLogLine (log_line w0 t g s p w4) n =
    (case JSON_parse p of
       Some ev \<Rightarrow>
         (Some \<lparr>timestamp = map_option fst t, sessionId = map_option fst g,
                source = map_option (\<lambda>x. map upper (fst x)) s, event = ev,
                rawLine = log_line w0 t g s p w4, lineNumber = n\<rparr>, [])
     | None \<Rightarrow> (None, [DecodeWarning n (take 100 p)]))"
proof -
  define bs where "bs = (case s of Some (src, w) \<Rightarrow> ''['' @ src @ '']'' @ w | None \<Rightarrow> []) @ p"
  define bg where "bg = (case g of Some (tag, w) \<Rightarrow> ''['' @ tag @ '']'' @ w | None \<Rightarrow> []) @ bs"
  define bt where "bt = (case t of Some (ts, w) \<Rightarrow> ts @ w | None \<Rightarrow> []) @ bg"
  have line: "log_line w0 t g s p w4 = w0 @ bt @ w4"
    by (simp add: log_line_def bt_def bg_def bs_def)
  have hs: "bs \<noteq> [] \<and> (hd bs = CHR ''['' \<or> hd bs = CHR ''{'')"
    using payload by (auto simp: bs_def split: option.splits)
  have hg: "bg \<noteq> [] \<and> (hd bg = CHR ''['' \<or> hd bg = CHR ''{'')"
    using hs by (auto simp: bg_def split: option.splits)
  have ms: "match_source bs = (case s of Some (src, w) \<Rightarrow> Some (src, p) | None \<Rightarrow> None)"
  proof (cases s)
    case None
    with payload show ?thesis
      by (simp add: bs_def match_source_none)
  next
    case (Some x)
    obtain src w where x: "x = (src, w)" by (cases x)
    with Some toks(3) have v: "grammar_source src" "list_all js_space w"
      by (simp_all add: token_ok_def)
    have "bs = ''['' @ src @ '']'' @ (w @ p)"
      by (simp add: bs_def Some x)
    with match_source_ok [OF v(1), of "w @ p"] after_space(1) [OF v(2) payload(1)] payload(2)
    show ?thesis
      by (simp add: Some x)
  qed
  have mg: "match_uuid bg = (case g of Some (tag, w) \<Rightarrow> Some (tag, bs) | None \<Rightarrow> None)"
  proof (cases g)
    case None
    then have bg: "bg = bs" by (simp add: bg_def)
    show ?thesis
    proof (cases s)
      case None
      with payload have "hd bs \<noteq> CHR ''[''"
        by (simp add: bs_def)
      with bg \<open>g = None\<close> show ?thesis
        by (simp add: match_uuid_none)
    next
      case (Some x)
      obtain src w where x: "x = (src, w)" by (cases x)
      with Some toks(3) have "grammar_source src"
        by (simp add: token_ok_def)
      from grammar_source_head [OF this] have "\<not> tag_char (hd (tl bs))"
        by (simp add: bs_def Some x)
      with bg \<open>g = None\<close> show ?thesis
        by (simp add: match_uuid_none)
    qed
  next
    case (Some x)
    obtain tag w where x: "x = (tag, w)" by (cases x)
    with Some toks(2) have v: "grammar_tag tag" "list_all js_space w"
      by (simp_all add: token_ok_def)
    have "bg = ''['' @ tag @ '']'' @ (w @ bs)"
      by (simp add: bg_def Some x)
    with match_uuid_ok [OF v(1), of "w @ bs"] after_space(1) [OF v(2), of bs] hs
    show ?thesis
      by (simp add: Some x)
  qed
  have mt: "match_timestamp bt = (case t of Some (ts, w) \<Rightarrow> Some (ts, bg) | None \<Rightarrow> None)"
  proof (cases t)
    case None
    with hg bracket_stops [of "hd bg"] show ?thesis
      by (simp add: bt_def match_timestamp_none)
  next
    case (Some x)
    obtain ts w where x: "x = (ts, w)" by (cases x)
    with Some toks(1) have v: "grammar_timestamp ts" "list_all js_space w"
      by (simp_all add: token_ok_def)
    have "bt = ts @ (w @ bg)"
      by (simp add: bt_def Some x)
    with match_timestamp_ok [OF v(1), of "w @ bg"] after_space [OF v(2), of bg] hg
    show ?thesis
      by (simp add: Some x)
  qed
  have ex: "extract_prefixes bt =
      (map_option fst t, map_option fst g, map_option (\<lambda>x. map upper (fst x)) s, p)"
  proof -
    have "t = None \<Longrightarrow> bt = bg" "g = None \<Longrightarrow> bg = bs" "s = None \<Longrightarrow> bs = p"
      by (simp_all add: bt_def bg_def bs_def)
    then have 1: "(case match_timestamp bt of Some (a, r) \<Rightarrow> (Some a, r) | None \<Rightarrow> (None, bt)) =
        (map_option fst t, bg)"
      and 2: "(case match_uuid bg of Some (a, r) \<Rightarrow> (Some a, r) | None \<Rightarrow> (None, bg)) =
        (map_option fst g, bs)"
      and 3: "(case match_source bs of Some (a, r) \<Rightarrow> (Some (map upper a), r) | None \<Rightarrow> (None, bs)) =
        (map_option (\<lambda>x. map upper (fst x)) s, p)"
      by (simp_all add: mt mg ms split: option.splits)
    show ?thesis
      by (simp add: extract_prefixes_def 1 2 3)
  qed
  have head: "bt \<noteq> [] \<and> \<not> js_space (hd bt)"
  proof (cases t)
    case None
    with hg bracket_stops [of "hd bg"] show ?thesis
      by (simp add: bt_def)
  next
    case (Some x)
    obtain ts w where x: "x = (ts, w)" by (cases x)
    with Some toks(1) have "grammar_timestamp ts"
      by (simp add: token_ok_def)
    from grammar_timestamp_head [OF this] show ?thesis
      by (simp add: bt_def Some x)
  qed
  have "last bt = last p"
    using payload(1) by (simp add: bt_def bg_def bs_def)
  with head payload(3) have "trim (w0 @ bt @ w4) = bt"
    by (intro trim_padded ws) simp_all
  with head show ?thesis
    by (simp add: parseLogLine_def line ex split: option.splits)
qed

lemma example_payload_parse: "JSON_parse example_payload = Some example_event"
  by (simp add: example_payload_def example_event_def json_defs)

theorem parseLogLine_grammar_witness:
  "parseLogLine (''2024-01-15T10:30:00.000Z [abc-123] [OPENAI] '' @ example_payload) 1 =
     (Some \<lparr>timestamp = Some ''2024-01-15T10:30:00.000Z'', sessionId = Some ''abc-123'',
            source = Some ''OPENAI'', event = example_event,
            rawLine = ''2024-01-15T10:30:00.000Z [abc-123] [OPENAI] '' @ example_payload,
            lineNumber = 1\<rparr>, []) \<and>
   type_of example_event = Some ''session.created'' \<and>
   parseLogLine (''[user]'' @ example_payload) 2 =
     (Some \<lparr>timestamp = None, sessionId = None, source = Some ''USER'', event = example_event,
            rawLine = ''[user]'' @ example_payload, lineNumber = 2\<rparr>, [])"
proof -
  have ts: "token_ok grammar_timestamp (Some (''2024-01-15T10:30:00.000Z'', '' ''))"
    by (simp add: token_ok_def grammar_timestamp_def template_char_def digit_def js_space_def)
  have tag: "token_ok grammar_tag (Some (''abc-123'', '' ''))"
    by (simp add: token_ok_def grammar_tag_def js_space_def)
  have src: "token_ok grammar_source (Some (''OPENAI'', '' ''))"
    by (simp add: token_ok_def grammar_source_def upper_def js_space_def)
  have usr: "token_ok grammar_source (Some (''user'', []))"
    by (simp add: token_ok_def grammar_source_def upper_def)
  have none: "token_ok v None" for v
    by (simp add: token_ok_def)
  have p: "example_payload \<noteq> []" "hd example_payload = CHR ''{''"
    "\<not> js_space (last example_payload)"
    by (simp_all add: example_payload_def js_space_def)
  have ws: "list_all js_space []"
    by simp
  have l1: "log_line [] (Some (''2024-01-15T10:30:00.000Z'', '' '')) (Some (''abc-123'', '' ''))
      (Some (''OPENAI'', '' '')) example_payload [] =
      ''2024-01-15T10:30:00.000Z [abc-123] [OPENAI] '' @ example_payload"
    by (simp add: log_line_def)
  have l2: "log_line [] None None (Some (''user'', [])) example_payload [] =
      ''[user]'' @ example_payload"
    by (simp add: log_line_def)
  have up: "map upper ''OPENAI'' = ''OPENAI''" "map upper ''user'' = ''USER''"
    by (simp_all add: upper_def)
  have ty: "type_of example_event = Some ''session.created''"
    by (simp add: example_event_def type_of_def get_def)
  from parseLogLine_grammar [OF ws ws ts tag src p, of 1]
  have first: "parseLogLine (''2024-01-15T10:30:00.000Z [abc-123] [OPENAI] '' @ example_payload) 1 =
     (Some \<lparr>timestamp = Some ''2024-01-15T10:30:00.000Z'', sessionId = Some ''abc-123'',
            source = Some ''OPENAI'', event = example_event,
            rawLine = ''2024-01-15T10:30:00.000Z [abc-123] [OPENAI] '' @ example_payload,
            lineNumber = 1\<rparr>, [])"
    unfolding l1 example_payload_parse by (simp add: upper_def)
  from parseLogLine_grammar [OF ws ws none none usr p, of 2]
  have second: "parseLogLine (''[user]'' @ example_payload) 2 =
     (Some \<lparr>timestamp = None, sessionId = None, source = Some ''USER'', event = example_event,
            rawLine = ''[user]'' @ example_payload, lineNumber = 2\<rparr>, [])"
    unfolding l2 example_payload_parse by (simp add: upper_def)
  from first second ty show ?thesis
    by (intro conjI)
qed

lemma parseLogLine_cases:
  "parseLogLine line n =
     (if trim line = [] then (None, [])
      else
        (case JSON_parse (payload_text line) of
           Some ev \<Rightarrow>
             (Some \<lparr>timestamp = fst (extract_prefixes (trim line)),
                    sessionId = fst (snd (extract_prefixes (trim line))),
                    source = fst (snd (snd (extract_prefixes (trim line)))),
                    event = ev, rawLine = line, lineNumber = n\<rparr>, [])
         | None \<Rightarrow> (None, [DecodeWarning n (take 100 (payload_text line))])))"
  by (simp add: parseLogLine_def payload_text_def Let_def split: prod.splits option.splits)

lemma trim_empty_iff: "trim line = [] \<longleftrightarrow> whitespace_only line"
proof -
  have "trim line = [] \<longleftrightarrow> (\<forall>x\<in>set (dropWhile js_space line). js_space x)"
    by (simp add: trim_def)
  also have "\<dots> \<longleftrightarrow> dropWhile js_space line = []"
  proof
    assume a: "\<forall>x\<in>set (dropWhile js_space line). js_space x"
    show "dropWhile js_space line = []"
    proof (rule ccontr)
      assume ne: "dropWhile js_space line \<noteq> []"
      then have "\<not> js_space (hd (dropWhile js_space line))"
        by (rule hd_dropWhile)
      moreover from a ne have "js_space (hd (dropWhile js_space line))"
        by (meson hd_in_set)
      ultimately show False by simp
    qed
  next
    assume "dropWhile js_space line = []"
    then show "\<forall>x\<in>set (dropWhile js_space line). js_space x"
      by (simp only: list.set ball_empty)
  qed
  also have "\<dots> \<longleftrightarrow> whitespace_only line"
    by (simp add: whitespace_only_def list_all_iff js_space_def)
  finally show ?thesis .
qed

lemma five_val: "to_double False (Suc (Suc (Suc (Suc (Suc 0))))) (Suc 0) = JNum 5"
  by (simp add: to_double_def binary_exponent_def round_half_even_def scale2_def bitlen.simps Let_def)

lemma five_line: "parseLogLine ''5'' n =
      (Some \<lparr>timestamp = None, sessionId = None, source = None, event = JNum 5,
             rawLine = ''5'', lineNumber = n\<rparr>, [])"
  by (simp add: line_defs json_defs five_val)

lemma true_line: "parseLogLine ''true'' n =
      (Some \<lparr>timestamp = None, sessionId = None, source = None, event = JBool True,
             rawLine = ''true'', lineNumber = n\<rparr>, [])"
  by (simp add: line_defs json_defs)

text \<open>
  Claim C7, as amended. \<^verbatim>\<open>parseLogLine\<close> rejects a line exactly when the line is blank or
  of white space only (then nothing is logged) or when the remainder after the prefix
  extraction is no JSON text (then one warning is logged, with the line number and the
  first 100 characters of the remainder). A remainder that is JSON text of any kind is
  accepted, and its value is the event of the decoded line, whether or not it is an
  object. A rejected line leaves the parse of the remaining lines as it was: the loop of
  \<^verbatim>\<open>parseLogFile\<close> goes on with the next line number from the same sessions, only the log
  extended, and the decoded lines are those of the remaining lines. The claim as stated,
  rejection whenever the remainder is not a JSON object, fails on the lines \<^verbatim>\<open>5\<close> and
  \<^verbatim>\<open>true\<close>: they are accepted, with a number and a boolean as event.
\<close>

theorem parseLogLine_rejects:
  "(fst (parseLogLine line n) = None \<longleftrightarrow>
      whitespace_only line \<or> JSON_parse (payload_text line) = None) \<and>
   (whitespace_only line \<longrightarrow> parseLogLine line n = (None, [])) \<and>
   (\<not> whitespace_only line \<and> JSON_parse (payload_text line) = None \<longrightarrow>
      parseLogLine line n = (None, [DecodeWarning n (take 100 (payload_text line))])) \<and>
   (\<not> whitespace_only line \<and> JSON_parse (payload_text line) = Some ev \<longrightarrow>
      (\<exists>ts sid src.
         parseLogLine line n =
           (Some \<lparr>timestamp = ts, sessionId = sid, source = src, event = ev,
                  rawLine = line, lineNumber = n\<rparr>, []))) \<and>
   (fst (parseLogLine line (i + 1)) = None \<longrightarrow>
      parse_loop st i (line # rest) =
        parse_loop (st\<lparr>logged := logged st @ snd (parseLogLine line (i + 1))\<rparr>) (i + 1) rest \<and>
      decoded_from i (line # rest) = decoded_from (i + 1) rest)"
proof (intro conjI impI)
  show "fst (parseLogLine line n) = None \<longleftrightarrow>
      whitespace_only line \<or> JSON_parse (payload_text line) = None"
    by (auto simp: parseLogLine_cases trim_empty_iff split: option.splits)
next
  assume "whitespace_only line"
  then have "trim line = []"
    by (simp only: trim_empty_iff)
  then show "parseLogLine line n = (None, [])"
    by (simp add: parseLogLine_cases)
next
  assume "\<not> whitespace_only line \<and> JSON_parse (payload_text line) = None"
  then have "trim line \<noteq> []" "JSON_parse (payload_text line) = None"
    by (simp_all only: trim_empty_iff simp_thms)
  then show "parseLogLine line n = (None, [DecodeWarning n (take 100 (payload_text line))])"
    by (simp add: parseLogLine_cases)
next
  assume "\<not> whitespace_only line \<and> JSON_parse (payload_text line) = Some ev"
  then have "trim line \<noteq> []" "JSON_parse (payload_text line) = Some ev"
    by (simp_all only: trim_empty_iff simp_thms)
  then have "parseLogLine line n =
      (Some \<lparr>timestamp = fst (extract_prefixes (trim line)),
             sessionId = fst (snd (extract_prefixes (trim line))),
             source = fst (snd (snd (extract_prefixes (trim line)))),
             event = ev, rawLine = line, lineNumber = n\<rparr>, [])"
    by (simp add: parseLogLine_cases)
  then show "\<exists>ts sid src.
         parseLogLine line n =
           (Some \<lparr>timestamp = ts, sessionId = sid, source = src, event = ev,
                  rawLine = line, lineNumber = n\<rparr>, [])"
    by blast
next
  assume r: "fst (parseLogLine line (i + 1)) = None"
  then obtain w where w: "parseLogLine line (i + 1) = (None, w)"
    by (cases "parseLogLine line (i + 1)") simp
  then show "parse_loop st i (line # rest) =
        parse_loop (st\<lparr>logged := logged st @ snd (parseLogLine line (i + 1))\<rparr>) (i + 1) rest"
    by simp
  from r show "decoded_from i (line # rest) = decoded_from (i + 1) rest"
    by simp
qed

theorem parseLogLine_scalar_counterexample:
  "parseLogLine ''5'' 1 =
     (Some \<lparr>timestamp = None, sessionId = None, source = None, event = JNum 5,
            rawLine = ''5'', lineNumber = 1\<rparr>, []) \<and>
   parseLogLine ''true'' 1 =
     (Some \<lparr>timestamp = None, sessionId = None, source = None, event = JBool True,
            rawLine = ''true'', lineNumber = 1\<rparr>, []) \<and>
   \<not> whitespace_only ''5'' \<and> \<not> whitespace_only ''true'' \<and>
   payload_text ''5'' = ''5'' \<and> payload_text ''true'' = ''true'' \<and>
   \<not> is_object (JNum 5) \<and> \<not> is_object (JBool True)"
proof -
  have "payload_text ''5'' = ''5''" "payload_text ''true'' = ''true''"
    by (simp_all add: payload_text_def trim_def js_space_def extract_prefixes_def
        match_date_def match_timestamp_def match_uuid_def match_source_def literal_def
        digits_def digit_def)
  then show ?thesis
    by (simp add: five_line true_line whitespace_only_def is_object_def)
qed

theorem parseLogLine_rejects_witness:
  "parseLogLine [CHR '' '', CHR 0x09, CHR 0xA0] 1 = (None, []) \<and>
   parseLogLine ''2024-01-15T1 hello'' 2 = (None, [DecodeWarning 2 ''hello'']) \<and>
   parse_loop parse_init 0 [[CHR '' '', CHR 0x09, CHR 0xA0], ''2024-01-15T1 hello'', ''5''] =
     Inr \<lparr>sessions =
            [\<lparr>session_id = ''session-1'', session_sessionId = None, startTime = None,
              session_events =
                [\<lparr>timestamp = None, sessionId = None, source = None, event = JNum 5,
                  rawLine = ''5'', lineNumber = 3\<rparr>],
              model = None, voice = None\<rparr>],
          currentSession = Some 0, sessionCounter = 1,
          logged = [DecodeWarning 2 ''hello'']\<rparr>"
proof -
  let ?blank = "[CHR '' '', CHR 0x09, CHR 0xA0]"
  let ?bad = "''2024-01-15T1 hello''"
  have ws: "whitespace_only ?blank"
    by (simp add: whitespace_only_def)
  have nws: "\<not> whitespace_only ?bad"
    by (simp add: whitespace_only_def)
  have pt: "payload_text ?bad = ''hello''"
    by (simp add: payload_text_def line_defs digit_def)
  have np: "JSON_parse ''hello'' = None"
    by (simp add: json_defs)
  note blank = parseLogLine_rejects [of ?blank _ _ 0 parse_init "[?bad, ''5'']"]
  note bad = parseLogLine_rejects [of ?bad _ _ "0 + 1"
      "parse_init\<lparr>logged := logged parse_init @ []\<rparr>" "[''5'']"]
  have b1: "parseLogLine ?blank n = (None, [])" for n
    using blank [of n] ws by blast
  have b2: "parseLogLine ?bad n = (None, [DecodeWarning n ''hello''])" for n
    using bad [of n] nws pt np by simp
  have "fst (parseLogLine ?blank (0 + 1)) = None \<longrightarrow>
      parse_loop parse_init 0 (?blank # [?bad, ''5'']) =
        parse_loop (parse_init\<lparr>logged := logged parse_init @ snd (parseLogLine ?blank (0 + 1))\<rparr>)
          (0 + 1) [?bad, ''5''] \<and>
      decoded_from 0 (?blank # [?bad, ''5'']) = decoded_from (0 + 1) [?bad, ''5'']"
    using blank by (rule conjunct2 [THEN conjunct2, THEN conjunct2, THEN conjunct2])
  then have "parse_loop parse_init 0 (?blank # [?bad, ''5'']) =
      parse_loop (parse_init\<lparr>logged := logged parse_init @ []\<rparr>) (0 + 1) [?bad, ''5'']"
    by (simp only: b1 fst_conv snd_conv simp_thms)
  also have "fst (parseLogLine ?bad (0 + 1 + 1)) = None \<longrightarrow>
      parse_loop (parse_init\<lparr>logged := logged parse_init @ []\<rparr>) (0 + 1) (?bad # [''5'']) =
        parse_loop
          (parse_init\<lparr>logged := logged parse_init @ []\<rparr>
             \<lparr>logged := logged (parse_init\<lparr>logged := logged parse_init @ []\<rparr>) @
                snd (parseLogLine ?bad (0 + 1 + 1))\<rparr>)
          (0 + 1 + 1) [''5''] \<and>
      decoded_from (0 + 1) (?bad # [''5'']) = decoded_from (0 + 1 + 1) [''5'']"
    using bad by (rule conjunct2 [THEN conjunct2, THEN conjunct2, THEN conjunct2])
  then have "parse_loop (parse_init\<lparr>logged := logged parse_init @ []\<rparr>) (0 + 1) [?bad, ''5''] =
        parse_loop
          (parse_init\<lparr>logged := logged parse_init @ []\<rparr>
             \<lparr>logged := logged (parse_init\<lparr>logged := logged parse_init @ []\<rparr>) @
                [DecodeWarning (0 + 1 + 1) ''hello'']\<rparr>)
          (0 + 1 + 1) [''5'']"
    by (simp only: b2 fst_conv snd_conv simp_thms)
  also have "\<dots> =
     Inr \<lparr>sessions =
            [\<lparr>session_id = ''session-1'', session_sessionId = None, startTime = None,
              session_events =
                [\<lparr>timestamp = None, sessionId = None, source = None, event = JNum 5,
                  rawLine = ''5'', lineNumber = 3\<rparr>],
              model = None, voice = None\<rparr>],
          currentSession = Some 0, sessionCounter = 1,
          logged = [DecodeWarning 2 ''hello'']\<rparr>"
    by (simp add: five_line parse_init_def parse_step_def type_of_def get_def decimal.simps)
  finally have "parse_loop parse_init 0 [?blank, ?bad, ''5''] =
     Inr \<lparr>sessions =
            [\<lparr>session_id = ''session-1'', session_sessionId = None, startTime = None,
              session_events =
                [\<lparr>timestamp = None, sessionId = None, source = None, event = JNum 5,
                  rawLine = ''5'', lineNumber = 3\<rparr>],
              model = None, voice = None\<rparr>],
          currentSession = Some 0, sessionCounter = 1,
          logged = [DecodeWarning 2 ''hello'']\<rparr>" .
  with b1 [of 1] b2 [of 2] show ?thesis
    by (intro conjI)
qed

lemma null_line:
  "parseLogLine ''null'' n =
     (Some \<lparr>timestamp = None, sessionId = None, source = None, event = JNull,
            rawLine = ''null'', lineNumber = n\<rparr>, [])"
  by (simp add: line_defs json_defs)

text \<open>
  Claim C5 fails on a line whose payload is the JSON value \<^verbatim>\<open>null\<close>: the line decodes
  successfully, and \<^verbatim>\<open>parseLogFile\<close> then raises a TypeError on reading the type of its
  event, so the line is assigned to no session.
\<close>

theorem parseLogFile_null: "parseLogFile ''null'' = Inl TypeError"
  by (simp add: parseLogFile_def null_line parse_step_def)

text \<open>
  Apart from a \<^verbatim>\<open>null\<close> payload the segmentation is as claim C5 says: when no decoded line
  has the payload \<^verbatim>\<open>null\<close>, \<^verbatim>\<open>parseLogFile\<close> returns; the sessions hold the decoded lines,
  each exactly once and in order, cut before every session-start marker; and the line
  numbers of every session increase strictly.
\<close>

lemma parseLogLine_lineNumber:
  "fst (parseLogLine l n) = Some parsed \<Longrightarrow> lineNumber parsed = n"
  by (auto simp: parseLogLine_def Let_def split: if_splits prod.splits option.splits)

lemma decoded_from_numbers:
  "p \<in> set (decoded_from i ls) \<Longrightarrow> i < lineNumber p"
proof (induction ls arbitrary: i)
  case Nil
  then show ?case by simp
next
  case (Cons l ls)
  then show ?case
    by (fastforce split: option.splits dest: parseLogLine_lineNumber)
qed

lemma decoded_from_sorted: "sorted_wrt (<) (map lineNumber (decoded_from i ls))"
proof (induction ls arbitrary: i)
  case Nil
  then show ?case by simp
next
  case (Cons l ls)
  show ?case
  proof (cases "fst (parseLogLine l (i + 1))")
    case None
    with Cons.IH [of "i + 1"] show ?thesis by simp
  next
    case (Some parsed)
    from parseLogLine_lineNumber [OF Some] have "lineNumber parsed = i + 1" .
    moreover have "\<forall>p\<in>set (decoded_from (i + 1) ls). i + 1 < lineNumber p"
      using decoded_from_numbers by blast
    ultimately show ?thesis
      using Some Cons.IH [of "i + 1"] by simp
  qed
qed

lemma update_last: "xs \<noteq> [] \<Longrightarrow> xs[length xs - 1 := y] = butlast xs @ [y]"
  by (induction xs rule: rev_induct) simp_all

lemma parse_step_segment:
  assumes "current_last st" "event p \<noteq> JNull"
  shows "\<exists>st'. parse_step st p = Inr st' \<and> current_last st' \<and> logged st' = logged st \<and>
           map session_events (sessions st') =
             (if type_of (event p) = Some ''session.created'' \<or> map session_events (sessions st) = []
              then map session_events (sessions st) @ [[p]]
              else butlast (map session_events (sessions st)) @
                     [last (map session_events (sessions st)) @ [p]])"
proof (cases "type_of (event p) = Some ''session.created'' \<or> sessions st = []")
  case True
  with assms show ?thesis
    by (auto simp: parse_step_def current_last_def Let_def)
next
  case False
  then have ne: "sessions st \<noteq> []" and ty: "type_of (event p) \<noteq> Some ''session.created''"
    by simp_all
  let ?i = "length (sessions st) - 1"
  let ?ss = "(sessions st)[?i := (sessions st ! ?i)
               \<lparr>session_events := session_events (sessions st ! ?i) @ [p]\<rparr>]"
  from assms ne ty have step: "parse_step st p = Inr (st\<lparr>sessions := ?ss\<rparr>)"
    by (simp add: parse_step_def current_last_def)
  have last_is: "session_events (sessions st ! ?i) = last (map session_events (sessions st))"
    using ne by (simp add: last_map last_conv_nth)
  have "map session_events ?ss =
      (map session_events (sessions st))[?i := session_events (sessions st ! ?i) @ [p]]"
    by (simp add: map_update)
  also have "\<dots> = butlast (map session_events (sessions st)) @
      [session_events (sessions st ! ?i) @ [p]]"
    using ne update_last [of "map session_events (sessions st)"] by simp
  finally have "map session_events ?ss =
      butlast (map session_events (sessions st)) @ [last (map session_events (sessions st)) @ [p]]"
    by (simp only: last_is)
  with step assms(1) ne ty show ?thesis
    by (simp add: current_last_def)
qed

lemma parse_loop_segment:
  assumes "current_last st" "\<forall>p\<in>set (decoded_from i ls). event p \<noteq> JNull"
  shows "\<exists>st'. parse_loop st i ls = Inr st' \<and>
           map session_events (sessions st') =
             segment_loop (map session_events (sessions st)) (decoded_from i ls)"
  using assms
proof (induction ls arbitrary: st i)
  case Nil
  then show ?case by simp
next
  case (Cons l ls)
  obtain r w where r: "parseLogLine l (i + 1) = (r, w)"
    by (cases "parseLogLine l (i + 1)")
  show ?case
  proof (cases r)
    case None
    let ?st = "st\<lparr>logged := logged st @ w\<rparr>"
    from Cons.prems(1) have "current_last ?st"
      by (simp add: current_last_def)
    moreover from Cons.prems(2) r None have "\<forall>p\<in>set (decoded_from (i + 1) ls). event p \<noteq> JNull"
      by simp
    ultimately have "\<exists>st'. parse_loop ?st (i + 1) ls = Inr st' \<and>
        map session_events (sessions st') =
          segment_loop (map session_events (sessions ?st)) (decoded_from (i + 1) ls)"
      by (rule Cons.IH)
    with r None show ?thesis by simp
  next
    case (Some parsed)
    let ?st = "st\<lparr>logged := logged st @ w\<rparr>"
    from Cons.prems(1) have cl: "current_last ?st"
      by (simp add: current_last_def)
    from Cons.prems(2) r Some have nn: "event parsed \<noteq> JNull"
      and rest: "\<forall>p\<in>set (decoded_from (i + 1) ls). event p \<noteq> JNull"
      by simp_all
    from parse_step_segment [OF cl nn] obtain st1 where
      s: "parse_step ?st parsed = Inr st1" "current_last st1"
      "map session_events (sessions st1) =
         (if type_of (event parsed) = Some ''session.created'' \<or> map session_events (sessions st) = []
          then map session_events (sessions st) @ [[parsed]]
          else butlast (map session_events (sessions st)) @
                 [last (map session_events (sessions st)) @ [parsed]])"
      by auto
    from Cons.IH [OF s(2) rest] obtain st' where
      "parse_loop st1 (i + 1) ls = Inr st'"
      "map session_events (sessions st') =
         segment_loop (map session_events (sessions st1)) (decoded_from (i + 1) ls)"
      by blast
    with r Some s show ?thesis by simp
  qed
qed

lemma segment_loop_concat: "concat (segment_loop segs ps) = concat segs @ ps"
proof (induction ps arbitrary: segs)
  case Nil
  then show ?case by simp
next
  case (Cons p ps)
  have "segs \<noteq> [] \<Longrightarrow> concat (butlast segs @ [last segs @ [p]]) = concat segs @ [p]"
    by (induction segs rule: rev_induct) simp_all
  with Cons.IH show ?case by simp
qed

lemma sorted_wrt_concat: "sorted_wrt P (concat xss) \<Longrightarrow> xs \<in> set xss \<Longrightarrow> sorted_wrt P xs"
  by (induction xss) (auto simp: sorted_wrt_append)

lemma segment_loop_quiet:
  assumes "\<forall>p\<in>set ps. type_of (event p) \<noteq> Some ''session.created''"
  shows "segment_loop (segs @ [cur]) ps = segs @ [cur @ ps]"
  using assms by (induction ps arbitrary: cur) simp_all

lemma parseLogFile_sessions:
  assumes "\<forall>p\<in>set (decoded_from 0 (split_lines [] content)). event p \<noteq> JNull"
  shows "\<exists>ss w. parseLogFile content = Inr (ss, w) \<and>
           map session_events ss = segment_loop [] (decoded_from 0 (split_lines [] content)) \<and>
           concat (map session_events ss) = decoded_from 0 (split_lines [] content) \<and>
           (\<forall>s\<in>set ss. sorted_wrt (<) (map lineNumber (session_events s)))"
proof -
  let ?d = "decoded_from 0 (split_lines [] content)"
  have "current_last parse_init"
    by (simp add: current_last_def parse_init_def)
  from parse_loop_segment [OF this, of 0 "split_lines [] content"] assms obtain st where
    st: "parse_loop parse_init 0 (split_lines [] content) = Inr st"
    "map session_events (sessions st) = segment_loop [] ?d"
    by (auto simp: parse_init_def)
  from st(2) segment_loop_concat [of "[]" ?d] have cc: "concat (map session_events (sessions st)) = ?d"
    by simp
  have "sorted_wrt (<) (map lineNumber (session_events s))" if "s \<in> set (sessions st)" for s
  proof -
    have "sorted_wrt (\<lambda>a b. lineNumber a < lineNumber b) ?d"
      using decoded_from_sorted [of 0 "split_lines [] content"] by (simp add: sorted_wrt_map)
    with cc have "sorted_wrt (\<lambda>a b. lineNumber a < lineNumber b) (concat (map session_events (sessions st)))"
      by simp
    from sorted_wrt_concat [OF this, of "session_events s"] that show ?thesis
      by (simp add: sorted_wrt_map)
  qed
  with st cc show ?thesis
    by (auto simp: parseLogFile_def parse_init_def)
qed

lemma segment_loop_append:
  "segment_loop segs (xs @ ys) = segment_loop (segment_loop segs xs) ys"
  by (induction xs arbitrary: segs) simp_all

text \<open>
  Two start markers, the first on the first decoded line, and no other: two sessions, the
  second from the second marker to the end.
\<close>

lemma segment_loop_two:
  assumes "type_of (event a) = Some ''session.created''" "type_of (event b) = Some ''session.created''"
    and "\<forall>p\<in>set xs. type_of (event p) \<noteq> Some ''session.created''"
    and "\<forall>p\<in>set ys. type_of (event p) \<noteq> Some ''session.created''"
  shows "segment_loop [] (a # xs @ b # ys) = [a # xs, b # ys]"
proof -
  have "segment_loop [] (a # xs @ b # ys) = segment_loop (segment_loop ([] @ [[a]]) xs) (b # ys)"
    by (simp add: segment_loop_append)
  also have "segment_loop ([] @ [[a]]) xs = [] @ [[a] @ xs]"
    using assms(3) by (rule segment_loop_quiet)
  also have "segment_loop ([] @ [[a] @ xs]) (b # ys) = segment_loop ([a # xs] @ [[b]]) ys"
    using assms(2) by simp
  also have "\<dots> = [a # xs] @ [[b] @ ys]"
    using assms(4) by (rule segment_loop_quiet)
  finally show ?thesis by simp
qed

end
